theory Spec2Isabelle
  imports Complex_Main "HOL-Library.Word" "HOL-Library.Log_Nat"
begin

section \<open>Numbers: IEEE 754 binary64\<close>

text \<open>
  A TypeScript \<open>number\<close> is an IEEE 754 binary64 value. It is modelled by its three
  fields: the sign bit, the 11-bit biased exponent and the 52-bit fraction. Every value
  of the type is a double: exponent 2047 is an infinity (fraction 0) or a NaN (any other
  fraction), exponent 0 is a zero or a subnormal, everything else is a normal number.
\<close>

datatype number = Number (sign: bool) (exponent: "11 word") (fraction: "52 word")

definition is_nan :: "number \<Rightarrow> bool" where
  "is_nan a \<longleftrightarrow> exponent a = 2047 \<and> fraction a \<noteq> 0"

definition is_infinite :: "number \<Rightarrow> bool" where
  "is_infinite a \<longleftrightarrow> exponent a = 2047 \<and> fraction a = 0"

definition is_finite :: "number \<Rightarrow> bool" where
  "is_finite a \<longleftrightarrow> exponent a \<noteq> 2047"

definition is_zero :: "number \<Rightarrow> bool" where
  "is_zero a \<longleftrightarrow> exponent a = 0 \<and> fraction a = 0"

definition NaN :: number where
  "NaN = Number False 2047 (2 ^ 51)"

definition Infinity :: "bool \<Rightarrow> number" where
  "Infinity s = Number s 2047 0"

definition Zero :: "bool \<Rightarrow> number" where
  "Zero s = Number s 0 0"

text \<open>
  Every finite double is a whole multiple of \<open>2 ^ -1074\<close>. \<open>mag a\<close> is the magnitude of
  \<open>a\<close> counted in that unit; \<open>valof a\<close> is the rational number \<open>a\<close> stands for. On
  an infinity \<open>mag\<close> is \<open>2 ^ 2098\<close>, the first multiple beyond the finite range.
\<close>

definition mag :: "number \<Rightarrow> nat" where
  "mag a = (if exponent a = 0 then unat (fraction a)
            else (2 ^ 52 + unat (fraction a)) * 2 ^ (unat (exponent a) - 1))"

definition valof :: "number \<Rightarrow> rat" where
  "valof a = (if sign a then - 1 else 1) * of_nat (mag a) / 2 ^ 1074"

text \<open>
  \<open>of_mag s m\<close> builds the double of sign \<open>s\<close> and magnitude \<open>m\<close> units, for an \<open>m\<close> that
  has at most 53 significant bits; from \<open>2 ^ 2098\<close> units on the result is an infinity.
\<close>

definition of_mag :: "bool \<Rightarrow> nat \<Rightarrow> number" where
  "of_mag s m =
     (if 2 ^ 2098 \<le> m then Infinity s
      else if m < 2 ^ 52 then Number s 0 (of_nat m)
      else let k = floorlog 2 m - 53
           in Number s (of_nat (k + 1)) (of_nat (m div 2 ^ k - 2 ^ 52)))"

text \<open>Round the fraction \<open>n / d\<close> to the nearest integer, ties to the even one.\<close>

definition rne :: "nat \<Rightarrow> nat \<Rightarrow> nat" where
  "rne n d =
     (let q = n div d; r = n mod d
      in if 2 * r < d then q
         else if d < 2 * r then q + 1
         else if even q then q else q + 1)"

text \<open>
  Round \<open>n / d\<close> units to 53 significant bits (round to nearest, ties to even, the only
  rounding mode of ECMAScript): below \<open>2 ^ 53\<close> units the spacing of the doubles is one
  unit, above it the spacing is \<open>2 ^ k\<close> units where \<open>k\<close> is the number of bits the
  integer part has beyond 53.
\<close>

definition round_mag :: "nat \<Rightarrow> nat \<Rightarrow> nat" where
  "round_mag n d = (let k = floorlog 2 (n div d) - 53 in rne n (d * 2 ^ k) * 2 ^ k)"

definition round_number :: "bool \<Rightarrow> nat \<Rightarrow> nat \<Rightarrow> number" where
  "round_number s n d = of_mag s (round_mag n d)"

text \<open>A non-negative integer literal of the source, such as \<open>153\<close>.\<close>

definition lit :: "nat \<Rightarrow> number" where
  "lit n = round_number False (n * 2 ^ 1074) 1"

text \<open>The operators \<open>*\<close>, \<open>/\<close> and \<open>>\<close> of ECMAScript on numbers.\<close>

definition fmul :: "number \<Rightarrow> number \<Rightarrow> number" where
  "fmul a b =
     (if is_nan a \<or> is_nan b then NaN
      else if is_infinite a \<or> is_infinite b then
        (if is_zero a \<or> is_zero b then NaN else Infinity (sign a \<noteq> sign b))
      else round_number (sign a \<noteq> sign b) (mag a * mag b) (2 ^ 1074))"

definition fdiv :: "number \<Rightarrow> number \<Rightarrow> number" where
  "fdiv a b =
     (if is_nan a \<or> is_nan b then NaN
      else if is_infinite a then
        (if is_infinite b then NaN else Infinity (sign a \<noteq> sign b))
      else if is_infinite b then Zero (sign a \<noteq> sign b)
      else if is_zero b then
        (if is_zero a then NaN else Infinity (sign a \<noteq> sign b))
      else round_number (sign a \<noteq> sign b) (mag a * 2 ^ 1074) (mag b))"

definition signed_mag :: "number \<Rightarrow> int" where
  "signed_mag a = (if sign a then - int (mag a) else int (mag a))"

definition fgt :: "number \<Rightarrow> number \<Rightarrow> bool" where
  "fgt a b \<longleftrightarrow> \<not> is_nan a \<and> \<not> is_nan b \<and> signed_mag b < signed_mag a"

section \<open>The overlay calculator\<close>

text \<open>
  Modelled from the spec: the types \<open>Template\<close> and the resolved design come from
  \<open>templateData\<close>, which is not among the sources. The records below hold the fields
  that \<open>getPhotoOverlayParams\<close> reads; both are extensible, so a template or a design
  with further fields is an instance. \<open>photoPosition.x\<close> and \<open>photoPosition.y\<close>
  are the fields \<open>pos_x\<close> and \<open>pos_y\<close>, \<open>photoSize.width\<close> and \<open>photoSize.height\<close>
  are \<open>size_width\<close> and \<open>size_height\<close>. An absent \<open>showPhoto\<close> is \<open>None\<close>.
\<close>

datatype PhotoShape = circle | rounded | square

record PhotoPosition =
  pos_x :: number
  pos_y :: number

record PhotoSize =
  size_width :: number
  size_height :: number

record ResolvedDesign =
  photoPosition :: PhotoPosition
  photoSize :: PhotoSize
  photoShape :: PhotoShape
  showPhoto :: "bool option"

record 'd Template =
  front :: 'd

record PhotoOverlayParams =
  leftPx :: number
  topPx :: number
  widthPx :: number
  heightPx :: number
  leftMM :: number
  topMM :: number
  widthMM :: number
  heightMM :: number
  shape :: PhotoShape
  visible :: bool

definition CARD_WIDTH_PX :: number where
  "CARD_WIDTH_PX = lit 153"

definition CARD_HEIGHT_PX :: number where
  "CARD_HEIGHT_PX = lit 244"

text \<open>
  \<open>resolveTemplateDesign\<close> is imported from \<open>templateData\<close> and is a parameter here.
  It may throw; a throw is the value \<open>Inl e\<close>, which \<open>getPhotoOverlayParams\<close>
  passes on unchanged, having no handler.
\<close>

definition getPhotoOverlayParams ::
  "('d \<Rightarrow> 'e + ('r ResolvedDesign_scheme)) \<Rightarrow> ('d, 't) Template_scheme \<Rightarrow> number \<Rightarrow> number
     \<Rightarrow> 'e + PhotoOverlayParams" where
  "getPhotoOverlayParams resolveTemplateDesign template cardWidthMM cardHeightMM =
     (case resolveTemplateDesign (front template) of
        Inl e \<Rightarrow> Inl e
      | Inr resolved \<Rightarrow>
          let left = pos_x (photoPosition resolved);
              top = pos_y (photoPosition resolved);
              width = size_width (photoSize resolved);
              height = size_height (photoSize resolved)
          in Inr \<lparr> leftPx = left,
                   topPx = top,
                   widthPx = width,
                   heightPx = height,
                   leftMM = fmul (fdiv left CARD_WIDTH_PX) cardWidthMM,
                   topMM = fmul (fdiv top CARD_HEIGHT_PX) cardHeightMM,
                   widthMM = fmul (fdiv width CARD_WIDTH_PX) cardWidthMM,
                   heightMM = fmul (fdiv height CARD_HEIGHT_PX) cardHeightMM,
                   shape = photoShape resolved,
                   visible = (showPhoto resolved \<noteq> Some False \<and> fgt width (lit 0)
                              \<and> fgt height (lit 0)) \<rparr>)"

section \<open>The photo source verifier\<close>

text \<open>
  An ECMAScript string is a sequence of 16-bit code units; \<open>length\<close> counts them and
  \<open>startsWith\<close> compares them. \<open>ascii\<close> embeds an ASCII literal of the source.
  The characters of the source's messages outside ASCII are given by their code units.
\<close>

type_synonym js_string = "16 word list"

definition ascii :: "string \<Rightarrow> js_string" where
  "ascii s = map of_char s"

definition startsWith :: "js_string \<Rightarrow> js_string \<Rightarrow> bool" where
  "startsWith s p \<longleftrightarrow> take (length p) s = p"

text \<open>\<open>s.includes(p)\<close>: \<open>p\<close> occurs in \<open>s\<close> at some position.\<close>

fun js_includes :: "js_string \<Rightarrow> js_string \<Rightarrow> bool" where
  "js_includes [] p = (p = [])"
| "js_includes (c # s) p = (startsWith (c # s) p \<or> js_includes s p)"

definition EM_DASH :: js_string where
  "EM_DASH = [0x2014]"

definition TEE :: js_string where
  "TEE = [0x251C, 0x2500]"

definition ELBOW :: js_string where
  "ELBOW = [0x2514, 0x2500]"

definition WARNING_SIGN :: js_string where
  "WARNING_SIGN = [0x26A0, 0xFE0F]"

text \<open>What a template literal prints for a boolean and for a non-negative integer.\<close>

definition string_of_bool :: "bool \<Rightarrow> js_string" where
  "string_of_bool b = (if b then ascii ''true'' else ascii ''false'')"

fun string_of_nat :: "nat \<Rightarrow> js_string" where
  "string_of_nat n =
     (if n < 10 then [of_nat (48 + n)]
      else string_of_nat (n div 10) @ [of_nat (48 + n mod 10)])"

declare string_of_nat.simps [simp del]

text \<open>
  \<open>Math.round\<close> takes the nearest integer, a tie going up. It is given here on the
  value of a finite number; the result is an integer, which a template literal prints in
  decimal.
\<close>

definition Math_round :: "rat \<Rightarrow> int" where
  "Math_round v = \<lfloor>v + 1 / 2\<rfloor>"

text \<open>
  The result of a call is the list of the lines it wrote to the console, oldest first,
  each with the method that wrote it. \<open>photoBase64\<close> is \<open>None\<close> when the argument
  is \<open>undefined\<close>; the test \<open>!photoBase64\<close> holds for \<open>undefined\<close> and for the
  empty string.
\<close>

datatype console_method = console_warn | console_log

type_synonym console = "(console_method \<times> js_string) list"

datatype js_error = TypeError

text \<open>
  Calling a method or reading a property of \<open>undefined\<close> throws a \<open>TypeError\<close>;
  the throw is the value \<open>Inl TypeError\<close>. These are the accesses to
  \<open>photoBase64\<close> the source makes after its guard: two calls of \<open>startsWith\<close>
  and one read of \<open>length\<close>.
\<close>

definition call_startsWith :: "js_string option \<Rightarrow> js_string \<Rightarrow> js_error + bool" where
  "call_startsWith v p = (case v of None \<Rightarrow> Inl TypeError | Some s \<Rightarrow> Inr (startsWith s p))"

definition get_length :: "js_string option \<Rightarrow> js_error + nat" where
  "get_length v = (case v of None \<Rightarrow> Inl TypeError | Some s \<Rightarrow> Inr (length s))"

definition verifyPhotoSource ::
  "js_string \<Rightarrow> js_string option \<Rightarrow> js_string \<Rightarrow> js_error + console" where
  "verifyPhotoSource employeeName photoBase64 templateName =
     (if photoBase64 = None \<or> photoBase64 = Some [] then
        Inr [(console_warn, ascii ''[PHOTO-VERIFY] '' @ employeeName @ ascii '': NO PHOTO ''
                            @ EM_DASH @ ascii '' export will have blank photo area'')]
      else
        case call_startsWith photoBase64 (ascii ''data:image/'') of
          Inl e \<Rightarrow> Inl e
        | Inr isDataUrl \<Rightarrow>
        case call_startsWith photoBase64 (ascii ''data:image/png'') of
          Inl e \<Rightarrow> Inl e
        | Inr isPNG \<Rightarrow>
        case get_length photoBase64 of
          Inl e \<Rightarrow> Inl e
        | Inr len \<Rightarrow>
        let sizeKB = Math_round (valof (fdiv (lit len) (lit 1024)))
        in Inr
           [(console_log, ascii ''[PHOTO-VERIFY] '' @ employeeName @ ascii '':''),
            (console_log, ascii ''  '' @ TEE @ ascii '' Template: '' @ templateName),
            (console_log, ascii ''  '' @ TEE @ ascii '' Is data URL: ''
                          @ string_of_bool isDataUrl),
            (console_log, ascii ''  '' @ TEE @ ascii '' Format: ''
                          @ (if isPNG then ascii ''PNG (supports transparency)''
                             else ascii ''JPEG/other'')),
            (console_log, ascii ''  '' @ TEE @ ascii '' Size: '' @ string_of_nat (nat sizeKB)
                          @ ascii '' KB''),
            (console_log, ascii ''  '' @ ELBOW @ ascii '' Source: ''
                          @ (if isDataUrl then ascii ''PROCESSED (bg-removed + cropped)''
                             else WARNING_SIGN @ ascii '' RAW URL '' @ EM_DASH
                                  @ ascii '' possible bug''))])"

section \<open>Auxiliary notions\<close>

text \<open>
  A magnitude is representable when it has at most 53 significant bits, that is, when
  it is a multiple of the spacing of the doubles around it.
\<close>

definition representable :: "nat \<Rightarrow> bool" where
  "representable m \<longleftrightarrow> 2 ^ (floorlog 2 m - 53) dvd m"

text \<open>
  The exact product of two finite numbers does not underflow when it is zero or at
  least \<open>2 ^ -1022\<close>, the smallest normal number, in magnitude; \<open>2 ^ 1126\<close> is
  \<open>2 ^ -1022\<close> in the unit of a product of two magnitudes.
\<close>

definition product_normal :: "number \<Rightarrow> number \<Rightarrow> bool" where
  "product_normal a b \<longleftrightarrow>
     is_finite a \<and> is_finite b \<and> (mag a * mag b = 0 \<or> 2 ^ 1126 \<le> mag a * mag b)"

text \<open>
  \<open>Number.MAX_VALUE\<close>, the largest finite number, and \<open>Number.MIN_VALUE\<close>, the
  smallest positive one.
\<close>

definition MAX_VALUE :: number where
  "MAX_VALUE = Number False 2046 (2 ^ 52 - 1)"

definition MIN_VALUE :: number where
  "MIN_VALUE = Number False 0 1"

text \<open>
  The design of the specification's end-to-end example: position (10, 20), size
  (50, 80), a circle, shown; with a template and a resolver that yields it.
\<close>

definition example_design :: ResolvedDesign where
  "example_design =
     \<lparr> photoPosition = \<lparr> pos_x = lit 10, pos_y = lit 20 \<rparr>,
       photoSize = \<lparr> size_width = lit 50, size_height = lit 80 \<rparr>,
       photoShape = circle,
       showPhoto = Some True \<rparr>"

definition example_template :: "ResolvedDesign Template" where
  "example_template = \<lparr> front = example_design \<rparr>"

definition example_resolver :: "ResolvedDesign \<Rightarrow> unit + ResolvedDesign" where
  "example_resolver design = Inr design"

text \<open>The same design with the photo at the left edge of the card.\<close>

definition left_edge_design :: ResolvedDesign where
  "left_edge_design = example_design \<lparr> photoPosition := \<lparr> pos_x = lit 0, pos_y = lit 20 \<rparr> \<rparr>"

section \<open>Facts about rounding\<close>

lemma floorlog_half: "0 < x \<Longrightarrow> floorlog 2 x = floorlog 2 (x div 2) + 1"
  by (subst compute_floorlog) simp

lemma floorlog_le53: "x < 2 ^ 53 \<Longrightarrow> floorlog 2 x - 53 = 0"
  by (simp add: floorlog_le_iff)

lemma floorlog_ge53: "2 ^ 52 \<le> x \<Longrightarrow> 53 \<le> floorlog 2 x"
  by (rule floorlog_geI) simp_all

lemma floorlog_eq53: "2 ^ 52 \<le> x \<Longrightarrow> x < 2 ^ 53 \<Longrightarrow> floorlog 2 x = 53"
  using floorlog_ge53 [of x] floorlog_le_iff [of 2 x 53] by simp

lemma rne_scale: "0 < c \<Longrightarrow> rne (n * c) (d * c) = rne n d"
  by (simp add: rne_def Let_def mult.commute [of _ c] mult.left_commute [of _ c])

lemma round_mag_scale: "0 < c \<Longrightarrow> round_mag (n * c) (d * c) = round_mag n d"
proof -
  assume c: "0 < c"
  have "rne (n * c) (d * 2 ^ k * c) = rne n (d * 2 ^ k)" for k
    using c by (rule rne_scale)
  then show ?thesis
    using c by (simp add: round_mag_def Let_def mult.assoc mult.commute [of c])
qed

lemma round_mag_double:
  assumes d: "0 < d" and n: "2 ^ 52 * d \<le> n"
  shows "round_mag (2 * n) d = 2 * round_mag n d"
proof -
  let ?q = "n div d"
  have q: "2 ^ 52 \<le> ?q"
    using d n by (simp add: less_eq_div_iff_mult_less_eq)
  have half: "(2 * n div d) div 2 = ?q"
    by (simp add: div_mult2_eq [symmetric] mult.commute [of d])
  have pos: "0 < 2 * n div d"
    using q half by (metis div_0 gr0I zero_neq_numeral leD zero_less_power)
  have "floorlog 2 (2 * n div d) = floorlog 2 ?q + 1"
    using floorlog_half [OF pos] half by simp
  moreover have "53 \<le> floorlog 2 ?q"
    using q by (rule floorlog_ge53)
  ultimately have k: "floorlog 2 (2 * n div d) - 53 = Suc (floorlog 2 ?q - 53)"
    by simp
  have "rne (n * 2) (d * 2 ^ (floorlog 2 ?q - 53) * 2) = rne n (d * 2 ^ (floorlog 2 ?q - 53))"
    by (rule rne_scale) simp
  then show ?thesis
    unfolding round_mag_def Let_def k by (simp add: mult.commute mult.left_commute)
qed

lemma round_mag_shift:
  assumes d: "0 < d" and n: "2 ^ 52 * d \<le> n"
  shows "round_mag (n * 2 ^ j) d = round_mag n d * 2 ^ j"
proof (induction j)
  case 0
  show ?case by simp
next
  case (Suc j)
  have "2 ^ 52 * d \<le> n * 2 ^ j"
    using n by (metis mult.right_neutral mult_le_mono one_le_numeral one_le_power)
  then have "round_mag (2 * (n * 2 ^ j)) d = 2 * round_mag (n * 2 ^ j) d"
    using d by (intro round_mag_double)
  with Suc show ?case
    by (simp add: mult.commute mult.left_commute)
qed

lemma round_mag_at:
  assumes d: "0 < d" and lo: "2 ^ (52 + k) * d \<le> n" and hi: "n < 2 ^ (53 + k) * d"
  shows "round_mag n d = rne n (d * 2 ^ k) * 2 ^ k"
proof -
  have "2 ^ (52 + k) \<le> n div d"
    using d lo by (simp add: less_eq_div_iff_mult_less_eq)
  moreover have "n div d < 2 ^ (53 + k)"
    using d hi by (simp add: div_less_iff_less_mult)
  ultimately have "floorlog 2 (n div d) = 53 + k"
    using floorlog_geI [where w = "53 + k" and b = 2 and x = "n div d"]
      floorlog_leI [where x = "n div d" and b = 2 and w = "53 + k"]
    by simp
  then show ?thesis
    by (simp add: round_mag_def)
qed

lemma round_mag_small:
  assumes "n < 2 ^ 53 * d"
  shows "round_mag n d = rne n d"
proof -
  have "n div d < 2 ^ 53"
    using assms by (cases "d = 0") (simp_all add: div_less_iff_less_mult)
  then show ?thesis
    by (simp add: round_mag_def floorlog_le53)
qed

lemma rne_exact: "0 < d \<Longrightarrow> rne (m * d) d = m"
  by (simp add: rne_def)

lemma representable_small: "m < 2 ^ 53 \<Longrightarrow> representable m"
  by (simp add: representable_def floorlog_le53)

lemma representable_normal:
  assumes "m \<le> 2 ^ 53"
  shows "representable (m * 2 ^ j)"
proof (cases "m = 0")
  case True
  then show ?thesis by (simp add: representable_def)
next
  case False
  then have fl: "floorlog 2 (m * 2 ^ j) = floorlog 2 m + j"
    by simp
  show ?thesis
  proof (cases "m < 2 ^ 53")
    case True
    then have "floorlog 2 m \<le> 53"
      by (simp add: floorlog_le_iff)
    then have "floorlog 2 m + j - 53 \<le> j"
      by simp
    then have "(2::nat) ^ (floorlog 2 m + j - 53) dvd 2 ^ j"
      by (rule le_imp_power_dvd)
    then show ?thesis
      unfolding representable_def fl by (rule dvd_mult)
  next
    case False
    with assms have m: "m = 2 ^ 53" by simp
    have "floorlog 2 ((2::nat) ^ 53) = 54"
      using floorlog_power [where a = 1 and b = 2 and c = 53] by (simp add: floorlog_def)
    then show ?thesis
      unfolding representable_def fl m by (simp flip: power_add)
  qed
qed

lemma representable_cases:
  assumes "representable m"
  obtains "m < 2 ^ 52" | m0 j where "m = m0 * 2 ^ j" "2 ^ 52 \<le> m0" "m0 < 2 ^ 53"
proof (cases "m < 2 ^ 52")
  case True
  then show ?thesis by (rule that(1))
next
  case False
  then have m: "2 ^ 52 \<le> m" by simp
  then have pos: "0 < m"
    by (metis gr0I leD zero_less_numeral zero_less_power)
  let ?j = "floorlog 2 m - 53"
  have fl: "53 \<le> floorlog 2 m"
    using m by (rule floorlog_ge53)
  from assms obtain m0 where m0: "m = m0 * 2 ^ ?j"
    unfolding representable_def by (metis dvd_def mult.commute)
  have b: "2 ^ (floorlog 2 m - 1) \<le> m \<and> m < 2 ^ floorlog 2 m"
    using pos by (intro floorlog_bounds) simp_all
  have e1: "floorlog 2 m - 1 = 52 + ?j" and e2: "floorlog 2 m = 53 + ?j"
    using fl by simp_all
  have "2 ^ 52 * 2 ^ ?j \<le> m0 * 2 ^ ?j"
    using b m0 e1 by (metis power_add)
  then have lo: "2 ^ 52 \<le> m0"
    by simp
  have "m0 * 2 ^ ?j < 2 ^ 53 * 2 ^ ?j"
    using b m0 e2 by (metis power_add)
  then have hi: "m0 < 2 ^ 53"
    by simp
  from m0 lo hi show ?thesis by (rule that(2))
qed

lemma round_mag_exact:
  assumes m: "representable m" and d: "0 < d"
  shows "round_mag (m * d) d = m"
  using m
proof (cases rule: representable_cases)
  case 1
  then have "m * d < 2 ^ 53 * d"
    using d by simp
  then show ?thesis
    using d by (simp add: round_mag_small rne_exact)
next
  case (2 m0 j)
  have shift: "round_mag (m0 * d * 2 ^ j) d = round_mag (m0 * d) d * 2 ^ j"
    using d 2 by (intro round_mag_shift) simp_all
  have exact: "round_mag (m0 * d) d = m0"
    using d 2 by (simp add: round_mag_small rne_exact)
  have eq: "m0 * 2 ^ j * d = m0 * d * 2 ^ j"
    by (simp add: ac_simps)
  show ?thesis
    unfolding 2(1) by (simp only: eq shift exact)
qed

lemma pow2_mono: "m \<le> n \<Longrightarrow> (2::nat) ^ m \<le> 2 ^ n"
  by (rule power_increasing) simp_all

lemma exponent_of_nat:
  assumes "n < 2047"
  shows "unat (of_nat n :: 11 word) = n" "(of_nat n :: 11 word) \<noteq> 2047"
    "(of_nat n :: 11 word) = 0 \<longleftrightarrow> n = 0"
proof -
  show u: "unat (of_nat n :: 11 word) = n"
    using assms by (simp add: unat_of_nat)
  show "(of_nat n :: 11 word) \<noteq> 2047"
    using u assms by (auto simp: word_unat_eq_iff)
  show "(of_nat n :: 11 word) = 0 \<longleftrightarrow> n = 0"
    using u by (auto simp: word_unat_eq_iff)
qed

lemma unat_fraction_of_nat: "m < 2 ^ 52 \<Longrightarrow> unat (of_nat m :: 52 word) = m"
  by (simp add: unat_of_nat)

lemma unat_fraction_less: "unat (f :: 52 word) < 2 ^ 52"
  using unsigned_less [of f] by simp

lemma unat_exponent_less: "unat (e :: 11 word) < 2048"
  using unsigned_less [of e] by simp

lemma of_mag_subnormal: "m < 2 ^ 52 \<Longrightarrow> of_mag s m = Number s 0 (of_nat m)"
  by (simp add: of_mag_def)

lemma normal_bounds:
  assumes lo: "2 ^ 52 \<le> m" and hi: "m < 2 ^ 53" and j: "j < 2046"
  shows "m * 2 ^ j < 2 ^ 2098" "2 ^ 52 \<le> m * 2 ^ j" "floorlog 2 (m * 2 ^ j) = 53 + j"
proof -
  have "(2::nat) ^ j \<le> 2 ^ 2045"
    using j by (intro pow2_mono) simp
  then have "m * 2 ^ j < 2 ^ 53 * 2 ^ 2045"
    using hi by (intro mult_less_le_imp_less) simp_all
  then show "m * 2 ^ j < 2 ^ 2098"
    by simp
  have "2 ^ 52 * 1 \<le> m * 2 ^ j"
    using lo by (intro mult_le_mono) simp_all
  then show "2 ^ 52 \<le> m * 2 ^ j"
    by simp
  have pos: "0 < m"
    using lo by (metis gr0I leD zero_less_numeral zero_less_power)
  show "floorlog 2 (m * 2 ^ j) = 53 + j"
    using pos lo hi by (simp add: floorlog_eq53)
qed

lemma of_mag_normal:
  assumes lo: "2 ^ 52 \<le> m" and hi: "m < 2 ^ 53" and j: "j < 2046"
  shows "of_mag s (m * 2 ^ j) = Number s (of_nat (j + 1)) (of_nat (m - 2 ^ 52))"
proof -
  note b = normal_bounds [OF assms]
  have "\<not> 2 ^ 2098 \<le> m * 2 ^ j" "\<not> m * 2 ^ j < 2 ^ 52"
    using b(1,2) by simp_all
  then show ?thesis
    using b(3) by (simp add: of_mag_def)
qed

lemma of_mag_infinite: "2 ^ 2098 \<le> m \<Longrightarrow> of_mag s m = Infinity s"
  by (simp add: of_mag_def)

lemma sign_of_mag: "sign (of_mag s m) = s"
  by (simp add: of_mag_def Infinity_def Let_def)

lemma mag_of_mag:
  assumes "representable m" and "m < 2 ^ 2098"
  shows "mag (of_mag s m) = m"
  using assms(1)
proof (cases rule: representable_cases)
  case 1
  then show ?thesis
    by (simp add: of_mag_subnormal mag_def unat_fraction_of_nat)
next
  case (2 m0 j)
  have j: "j < 2046"
  proof (rule ccontr)
    assume "\<not> j < 2046"
    then have "(2::nat) ^ 2046 \<le> 2 ^ j"
      by (intro pow2_mono) simp
    with 2 have "2 ^ 52 * 2 ^ 2046 \<le> m0 * 2 ^ j"
      by (intro mult_le_mono)
    with assms(2) 2 show False
      by simp
  qed
  then have j1: "j + 1 < 2047"
    by simp
  have "m0 - 2 ^ 52 < 2 ^ 52"
    using 2 by simp
  then have f: "unat (of_nat (m0 - 2 ^ 52) :: 52 word) = m0 - 2 ^ 52"
    by (rule unat_fraction_of_nat)
  have "mag (Number s (of_nat (j + 1)) (of_nat (m0 - 2 ^ 52))) = m0 * 2 ^ j"
    unfolding mag_def number.sel exponent_of_nat(1) [OF j1] exponent_of_nat(3) [OF j1] f
    using 2 by simp
  then show ?thesis
    unfolding 2(1) of_mag_normal [OF 2(2) 2(3) j] .
qed

lemma exponent_of_mag:
  assumes "m < 2 ^ 2098"
  shows "exponent (of_mag s m) \<noteq> 2047"
proof (cases "m < 2 ^ 52")
  case True
  then show ?thesis by (simp add: of_mag_subnormal)
next
  case False
  have "floorlog 2 m \<le> 2098"
    using assms by (simp add: floorlog_le_iff del: power_numeral)
  then have "floorlog 2 m - 53 + 1 < 2047"
    by simp
  then have "(of_nat (floorlog 2 m - 53 + 1) :: 11 word) \<noteq> 2047"
    by (rule exponent_of_nat(2))
  moreover have "\<not> 2 ^ 2098 \<le> m"
    using assms by simp
  ultimately show ?thesis
    using False by (simp add: of_mag_def Let_def del: of_nat_add of_nat_Suc)
qed

lemma is_finite_of_mag: "is_finite (of_mag s m) \<longleftrightarrow> m < 2 ^ 2098"
proof (cases "m < 2 ^ 2098")
  case True
  then show ?thesis
    by (simp add: is_finite_def exponent_of_mag)
next
  case False
  then have "of_mag s m = Infinity s"
    by (simp add: of_mag_infinite)
  with False show ?thesis
    by (simp add: is_finite_def Infinity_def)
qed

lemma not_nan_of_mag: "\<not> is_nan (of_mag s m)"
proof (cases "m < 2 ^ 2098")
  case True
  then show ?thesis
    by (simp add: is_nan_def exponent_of_mag)
next
  case False
  then have "of_mag s m = Infinity s"
    by (simp add: of_mag_infinite)
  then show ?thesis
    by (simp add: is_nan_def Infinity_def)
qed

lemma mag_normal_form:
  assumes "exponent a \<noteq> 0"
  shows "mag a = (2 ^ 52 + unat (fraction a)) * 2 ^ (unat (exponent a) - 1)"
  using assms by (simp add: mag_def)

lemma of_mag_mag:
  assumes "\<not> is_nan a"
  shows "of_mag (sign a) (mag a) = a"
proof (cases a)
  case (Number s e f)
  show ?thesis
  proof (cases "e = 0")
    case True
    then show ?thesis
      using Number unat_fraction_less [of f] by (simp add: mag_def of_mag_subnormal)
  next
    case e0: False
    then have pos: "0 < unat e"
      by (simp add: unat_gt_0)
    show ?thesis
    proof (cases "e = 2047")
      case True
      with assms Number have "f = 0"
        by (simp add: is_nan_def)
      with True Number show ?thesis
        by (simp add: mag_def of_mag_infinite Infinity_def)
    next
      case False
      then have "unat e \<noteq> 2047"
        by (auto simp: word_unat_eq_iff)
      then have j: "unat e - 1 < 2046"
        using unat_exponent_less [of e] by simp
      have "of_mag s ((2 ^ 52 + unat f) * 2 ^ (unat e - 1))
          = Number s (of_nat (unat e - 1 + 1)) (of_nat (2 ^ 52 + unat f - 2 ^ 52))"
        using unat_fraction_less [of f] j by (intro of_mag_normal) simp_all
      also have "\<dots> = Number s e f"
        using pos by simp
      finally show ?thesis
        using Number e0 by (simp add: mag_def)
    qed
  qed
qed

lemma representable_mag: "representable (mag a)"
proof (cases "exponent a = 0")
  case True
  then have "mag a < 2 ^ 53"
    using unat_fraction_less [of "fraction a"] by (simp add: mag_def)
  then show ?thesis
    by (rule representable_small)
next
  case False
  have "2 ^ 52 + unat (fraction a) \<le> 2 ^ 53"
    using unat_fraction_less [of "fraction a"] by simp
  then show ?thesis
    unfolding mag_normal_form [OF False] by (rule representable_normal)
qed

lemma mag_less_iff: "mag a < 2 ^ 2098 \<longleftrightarrow> is_finite a"
proof (cases "is_finite a")
  case True
  then have "\<not> is_nan a"
    by (simp add: is_finite_def is_nan_def)
  then have "of_mag (sign a) (mag a) = a"
    by (rule of_mag_mag)
  with True is_finite_of_mag [of "sign a" "mag a"] show ?thesis
    by simp
next
  case False
  then have e: "exponent a = 2047"
    by (simp add: is_finite_def)
  have "2 ^ 52 * 2 ^ 2046 \<le> (2 ^ 52 + unat (fraction a)) * 2 ^ 2046"
    by (intro mult_le_mono) simp_all
  then have "\<not> mag a < 2 ^ 2098"
    using e by (simp add: mag_def)
  with False show ?thesis
    by simp
qed

lemma rne_le: "rne n d \<le> n div d + 1"
  by (simp add: rne_def Let_def)

lemma representable_round_mag:
  assumes d: "0 < d"
  shows "representable (round_mag n d)"
proof -
  let ?q = "n div d"
  let ?k = "floorlog 2 ?q - 53"
  have "n div (d * 2 ^ ?k) < 2 ^ 53"
  proof (cases "?q = 0")
    case True
    then show ?thesis
      by (simp add: div_mult2_eq)
  next
    case False
    then have "?q < 2 ^ floorlog 2 ?q"
      by (intro floorlog_bounds [THEN conjunct2]) simp_all
    also have "(2::nat) ^ floorlog 2 ?q \<le> 2 ^ (53 + ?k)"
      by (intro pow2_mono) simp
    finally have "?q < 2 ^ 53 * 2 ^ ?k"
      by (simp add: power_add)
    then have "?q div 2 ^ ?k < 2 ^ 53"
      by (simp add: div_less_iff_less_mult)
    then show ?thesis
      by (simp add: div_mult2_eq)
  qed
  then have "rne n (d * 2 ^ ?k) \<le> 2 ^ 53"
    using rne_le [of n "d * 2 ^ ?k"] by simp
  then show ?thesis
    unfolding round_mag_def Let_def by (rule representable_normal)
qed

lemma fmul_finite:
  assumes "is_finite a" and "is_finite b"
  shows "fmul a b = of_mag (sign a \<noteq> sign b) (round_mag (mag a * mag b) (2 ^ 1074))"
  using assms by (simp add: fmul_def is_finite_def is_nan_def is_infinite_def round_number_def)

lemma fdiv_finite:
  assumes "is_finite a" and "is_finite b" and "\<not> is_zero b"
  shows "fdiv a b = of_mag (sign a \<noteq> sign b) (round_mag (mag a * 2 ^ 1074) (mag b))"
  using assms by (simp add: fdiv_def is_finite_def is_nan_def is_infinite_def round_number_def)

lemma mag_eq_0_iff: "mag a = 0 \<longleftrightarrow> is_zero a"
  by (auto simp: mag_def is_zero_def unat_eq_0)

lemma lit_of_mag:
  assumes "n < 2 ^ 53"
  shows "lit n = of_mag False (n * 2 ^ 1074)"
proof -
  have "representable (n * 2 ^ 1074)"
    using assms by (intro representable_normal) simp
  then have "round_mag (n * 2 ^ 1074 * 1) 1 = n * 2 ^ 1074"
    by (intro round_mag_exact) simp_all
  then show ?thesis
    by (simp add: lit_def round_number_def del: power_numeral)
qed

lemma lit_facts:
  assumes "n < 2 ^ 53"
  shows "mag (lit n) = n * 2 ^ 1074" "is_finite (lit n)" "sign (lit n) = False"
    "\<not> is_nan (lit n)" "is_zero (lit n) \<longleftrightarrow> n = 0" "valof (lit n) = of_nat n"
proof -
  have r: "representable (n * 2 ^ 1074)"
    using assms by (intro representable_normal) simp
  have "n * 2 ^ 1074 < 2 ^ 53 * 2 ^ 1074"
    using assms by simp
  also have "(2::nat) ^ 53 * 2 ^ 1074 \<le> 2 ^ 2098"
    unfolding power_add [symmetric] by (intro pow2_mono) simp
  finally have b: "n * 2 ^ 1074 < 2 ^ 2098" .
  show m: "mag (lit n) = n * 2 ^ 1074"
    unfolding lit_of_mag [OF assms] using r b by (rule mag_of_mag)
  show "is_finite (lit n)"
    unfolding lit_of_mag [OF assms] is_finite_of_mag by (rule b)
  show s: "sign (lit n) = False"
    unfolding lit_of_mag [OF assms] by (rule sign_of_mag)
  show "\<not> is_nan (lit n)"
    unfolding lit_of_mag [OF assms] by (rule not_nan_of_mag)
  show "is_zero (lit n) \<longleftrightarrow> n = 0"
    unfolding mag_eq_0_iff [symmetric] m by simp
  show "valof (lit n) = of_nat n"
    unfolding valof_def m s by (simp del: power_numeral)
qed

lemma representable_double:
  assumes "representable m"
  shows "representable (2 * m)"
  using assms
proof (cases rule: representable_cases)
  case 1
  then have "2 * m < 2 ^ 53"
    by simp
  then show ?thesis
    by (rule representable_small)
next
  case (2 m0 j)
  have "representable (m0 * 2 ^ Suc j)"
    using 2 by (intro representable_normal) simp
  then show ?thesis
    unfolding 2(1) by (simp add: ac_simps)
qed

lemma mag_infinite:
  assumes "\<not> is_finite b"
  shows "2 ^ 2098 \<le> mag b"
  using mag_less_iff [of b] assms by simp

lemma fmul_two:
  assumes "\<not> is_nan b"
  shows "fmul (lit 2) b = of_mag (sign b) (2 * mag b)"
proof (cases "is_finite b")
  case True
  have "(2::nat) < 2 ^ 53"
    by simp
  note two = lit_facts(1,2,3) [OF this]
  have r: "round_mag (2 * mag b * 2 ^ 1074) (2 ^ 1074) = 2 * mag b"
    by (intro round_mag_exact representable_double representable_mag) simp
  have m: "mag (lit 2) * mag b = 2 * mag b * 2 ^ 1074"
    unfolding two(1) by (simp only: ac_simps)
  show ?thesis
    unfolding fmul_finite [OF two(2) True] two(3) m r by simp
next
  case False
  with assms have inf: "is_infinite b"
    by (simp add: is_finite_def is_nan_def is_infinite_def)
  then have nz: "\<not> is_zero b"
    by (simp add: is_infinite_def is_zero_def)
  have two: "\<not> is_nan (lit 2)" "\<not> is_zero (lit 2)" "sign (lit 2) = False"
    by (simp_all add: lit_facts)
  have "2 ^ 2098 \<le> 2 * mag b"
    using mag_infinite [OF False] by simp
  then have "of_mag (sign b) (2 * mag b) = Infinity (sign b)"
    by (rule of_mag_infinite)
  moreover have "fmul (lit 2) b = Infinity (sign b)"
    using assms inf nz two by (simp add: fmul_def)
  ultimately show ?thesis
    by simp
qed

lemma round_mag_zero: "round_mag 0 d = 0"
  by (simp add: round_mag_def rne_def Let_def)

lemma fmul_double_target:
  assumes a: "is_finite a" and w: "is_finite w" and w2: "is_finite (fmul (lit 2) w)"
    and p: "mag a * mag w = 0 \<or> 2 ^ 1126 \<le> mag a * mag w"
  shows "fmul a (fmul (lit 2) w) = fmul (lit 2) (fmul a w)"
proof -
  let ?s = "sign a \<noteq> sign w"
  let ?R = "round_mag (mag a * mag w) (2 ^ 1074)"
  have nw: "\<not> is_nan w"
    using w by (simp add: is_finite_def is_nan_def)
  have tw: "fmul (lit 2) w = of_mag (sign w) (2 * mag w)"
    using nw by (rule fmul_two)
  have fin: "2 * mag w < 2 ^ 2098"
    using w2 unfolding tw is_finite_of_mag .
  have mtw: "mag (fmul (lit 2) w) = 2 * mag w"
    unfolding tw using representable_double [OF representable_mag] fin by (rule mag_of_mag)
  have stw: "sign (fmul (lit 2) w) = sign w"
    unfolding tw by (rule sign_of_mag)
  have dbl: "round_mag (2 * (mag a * mag w)) (2 ^ 1074) = 2 * ?R"
  proof (cases "mag a * mag w = 0")
    case True
    show ?thesis
      by (simp only: True mult_0_right round_mag_zero)
  next
    case False
    with p have "2 ^ 1126 \<le> mag a * mag w"
      by simp
    moreover have "(2::nat) ^ 52 * 2 ^ 1074 = 2 ^ 1126"
      unfolding power_add [symmetric] by simp
    ultimately have "2 ^ 52 * 2 ^ 1074 \<le> mag a * mag w"
      by (simp only:)
    then show ?thesis
      by (intro round_mag_double) simp
  qed
  have "mag a * mag (fmul (lit 2) w) = 2 * (mag a * mag w)"
    unfolding mtw by simp
  then have lhs: "fmul a (fmul (lit 2) w) = of_mag ?s (2 * ?R)"
    unfolding fmul_finite [OF a w2] stw dbl [symmetric] by (simp only:)
  have aw: "fmul a w = of_mag ?s ?R"
    using a w by (rule fmul_finite)
  have rhs: "fmul (lit 2) (fmul a w) = of_mag ?s (2 * mag (of_mag ?s ?R))"
    unfolding aw using fmul_two [OF not_nan_of_mag, of ?s ?R] by (simp only: sign_of_mag)
  show ?thesis
  proof (cases "?R < 2 ^ 2098")
    case True
    have "mag (of_mag ?s ?R) = ?R"
      using representable_round_mag True by (intro mag_of_mag) simp_all
    then show ?thesis
      unfolding lhs rhs by (simp only:)
  next
    case False
    then have "\<not> is_finite (of_mag ?s ?R)"
      by (simp only: is_finite_of_mag not_False_eq_True)
    then have "2 ^ 2098 \<le> 2 * mag (of_mag ?s ?R)"
      using mag_infinite [of "of_mag ?s ?R"] by simp
    moreover have "2 ^ 2098 \<le> 2 * ?R"
      using False by simp
    ultimately show ?thesis
      unfolding lhs rhs by (simp only: of_mag_infinite)
  qed
qed

lemma fgt_zero: "fgt a (lit 0) \<longleftrightarrow> \<not> is_nan a \<and> \<not> sign a \<and> \<not> is_zero a"
proof -
  have "signed_mag (lit 0) = 0" "\<not> is_nan (lit 0)"
    by (simp_all add: signed_mag_def lit_facts)
  then show ?thesis
    by (auto simp: fgt_def signed_mag_def mag_eq_0_iff [symmetric])
qed

section \<open>The overlay calculator: claims\<close>

lemma getPhotoOverlayParams_Inr:
  assumes "resolveTemplateDesign (front T) = Inr d"
  shows "getPhotoOverlayParams resolveTemplateDesign T w h =
     Inr \<lparr> leftPx = pos_x (photoPosition d),
           topPx = pos_y (photoPosition d),
           widthPx = size_width (photoSize d),
           heightPx = size_height (photoSize d),
           leftMM = fmul (fdiv (pos_x (photoPosition d)) CARD_WIDTH_PX) w,
           topMM = fmul (fdiv (pos_y (photoPosition d)) CARD_HEIGHT_PX) h,
           widthMM = fmul (fdiv (size_width (photoSize d)) CARD_WIDTH_PX) w,
           heightMM = fmul (fdiv (size_height (photoSize d)) CARD_HEIGHT_PX) h,
           shape = photoShape d,
           visible = (showPhoto d \<noteq> Some False \<and> fgt (size_width (photoSize d)) (lit 0)
                      \<and> fgt (size_height (photoSize d)) (lit 0)) \<rparr>"
  using assms by (simp add: getPhotoOverlayParams_def Let_def)

lemma example_resolves: "example_resolver (front example_template) = Inr example_design"
  by (simp add: example_resolver_def example_template_def)

lemma example_fields:
  "pos_x (photoPosition example_design) = lit 10"
  "pos_y (photoPosition example_design) = lit 20"
  "size_width (photoSize example_design) = lit 50"
  "size_height (photoSize example_design) = lit 80"
  "photoShape example_design = circle"
  "showPhoto example_design = Some True"
  by (simp_all add: example_design_def)

lemma valof_reference:
  "valof CARD_WIDTH_PX = 153" "valof CARD_HEIGHT_PX = 244"
  by (simp_all add: CARD_WIDTH_PX_def CARD_HEIGHT_PX_def lit_facts)

lemma fgt_zero_valof:
  "fgt a (lit 0) \<longleftrightarrow> (is_infinite a \<and> \<not> sign a) \<or> (is_finite a \<and> 0 < valof a)"
proof -
  have "0 < valof a \<longleftrightarrow> \<not> sign a \<and> \<not> is_zero a"
    by (auto simp: valof_def mag_eq_0_iff [symmetric] zero_less_divide_iff simp del: power_numeral)
  moreover have "is_zero a \<Longrightarrow> is_finite a"
    by (simp add: is_zero_def is_finite_def)
  moreover have "\<not> is_infinite a \<Longrightarrow> \<not> is_finite a \<Longrightarrow> is_nan a"
    by (simp add: is_infinite_def is_finite_def is_nan_def)
  moreover have "is_nan a \<Longrightarrow> \<not> is_finite a \<and> \<not> is_infinite a"
    by (simp add: is_infinite_def is_finite_def is_nan_def)
  moreover have "is_infinite a \<Longrightarrow> \<not> is_zero a"
    by (simp add: is_infinite_def is_zero_def)
  ultimately show ?thesis
    unfolding fgt_zero by blast
qed

lemma fgt_lit_zero: "0 < n \<Longrightarrow> n < 2 ^ 53 \<Longrightarrow> fgt (lit n) (lit 0)"
  by (simp add: fgt_zero lit_facts)

lemma not_fgt_zero_zero: "\<not> fgt (lit 0) (lit 0)"
  by (simp add: fgt_zero lit_facts)

text \<open>
  C1. When the resolver maps the template's front design to a design, the call returns,
  and each millimetre field is the pixel value divided by the reference dimension (153 for
  left and width, 244 for top and height) and multiplied by the target dimension, in the
  arithmetic of the language.
\<close>

theorem getPhotoOverlayParams_millimetres:
  assumes "resolveTemplateDesign (front T) = Inr d"
  shows "\<exists>r. getPhotoOverlayParams resolveTemplateDesign T w h = Inr r
    \<and> leftMM r = fmul (fdiv (pos_x (photoPosition d)) (lit 153)) w
    \<and> topMM r = fmul (fdiv (pos_y (photoPosition d)) (lit 244)) h
    \<and> widthMM r = fmul (fdiv (size_width (photoSize d)) (lit 153)) w
    \<and> heightMM r = fmul (fdiv (size_height (photoSize d)) (lit 244)) h
    \<and> valof (lit 153) = 153 \<and> valof (lit 244) = 244"
  using valof_reference
  by (simp add: getPhotoOverlayParams_Inr [of resolveTemplateDesign T d, OF assms] CARD_WIDTH_PX_def CARD_HEIGHT_PX_def)

theorem getPhotoOverlayParams_millimetres_witness:
  "\<exists>r. getPhotoOverlayParams example_resolver example_template (lit 54) (lit 86) = Inr r
    \<and> leftMM r = fmul (fdiv (lit 10) (lit 153)) (lit 54)
    \<and> topMM r = fmul (fdiv (lit 20) (lit 244)) (lit 86)
    \<and> widthMM r = fmul (fdiv (lit 50) (lit 153)) (lit 54)
    \<and> heightMM r = fmul (fdiv (lit 80) (lit 244)) (lit 86)"
  using getPhotoOverlayParams_millimetres
      [of example_resolver example_template example_design "lit 54" "lit 86", OF example_resolves]
  by (simp only: example_fields) blast

text \<open>
  C2. The photo is visible exactly when \<open>showPhoto\<close> is not \<open>false\<close> and the pixel
  width and the pixel height are both greater than zero. So a width or height that is
  zero or negative hides the photo whatever the other fields are, and so does
  \<open>showPhoto = false\<close> whatever the dimensions are; with finite positive dimensions
  and \<open>showPhoto\<close> not \<open>false\<close> the photo is visible.
\<close>

theorem getPhotoOverlayParams_visible:
  assumes "resolveTemplateDesign (front T) = Inr d"
  shows "\<exists>r. getPhotoOverlayParams resolveTemplateDesign T w h = Inr r
    \<and> (visible r \<longleftrightarrow> showPhoto d \<noteq> Some False
          \<and> fgt (size_width (photoSize d)) (lit 0) \<and> fgt (size_height (photoSize d)) (lit 0))
    \<and> (is_finite (size_width (photoSize d)) \<and> valof (size_width (photoSize d)) \<le> 0
          \<longrightarrow> \<not> visible r)
    \<and> (is_finite (size_height (photoSize d)) \<and> valof (size_height (photoSize d)) \<le> 0
          \<longrightarrow> \<not> visible r)
    \<and> (showPhoto d = Some False \<longrightarrow> \<not> visible r)
    \<and> (showPhoto d \<noteq> Some False
          \<and> is_finite (size_width (photoSize d)) \<and> 0 < valof (size_width (photoSize d))
          \<and> is_finite (size_height (photoSize d)) \<and> 0 < valof (size_height (photoSize d))
          \<longrightarrow> visible r)"
proof -
  have neg: "\<not> fgt a (lit 0)" if "is_finite a" "valof a \<le> 0" for a
    using that by (auto simp: fgt_zero_valof is_finite_def is_infinite_def)
  have pos: "fgt a (lit 0)" if "is_finite a" "0 < valof a" for a
    using that by (simp add: fgt_zero_valof)
  show ?thesis
    unfolding getPhotoOverlayParams_Inr [of resolveTemplateDesign T d, OF assms]
    using neg [of "size_width (photoSize d)"] neg [of "size_height (photoSize d)"]
      pos [of "size_width (photoSize d)"] pos [of "size_height (photoSize d)"]
    by simp
qed

theorem getPhotoOverlayParams_visible_witness:
  "(\<exists>r. getPhotoOverlayParams example_resolver example_template (lit 54) (lit 86) = Inr r
      \<and> visible r)
   \<and> (\<exists>r. getPhotoOverlayParams example_resolver
             \<lparr>front = example_design\<lparr>photoSize := \<lparr>size_width = lit 0, size_height = lit 80\<rparr>\<rparr>\<rparr>
             (lit 54) (lit 86) = Inr r
      \<and> \<not> visible r)
   \<and> (\<exists>r. getPhotoOverlayParams example_resolver
             \<lparr>front = example_design\<lparr>showPhoto := Some False\<rparr>\<rparr> (lit 54) (lit 86) = Inr r
      \<and> \<not> visible r)"
proof -
  have r: "example_resolver (front \<lparr>front = design\<rparr>) = Inr design" for design
    by (simp add: example_resolver_def)
  have pos: "fgt (lit 50) (lit 0)" "fgt (lit 80) (lit 0)"
    by (simp_all add: fgt_lit_zero)
  have z: "is_finite (lit 0)" "valof (lit 0) \<le> 0"
    by (simp_all add: lit_facts)
  show ?thesis
    using getPhotoOverlayParams_visible
        [of example_resolver example_template example_design "lit 54" "lit 86",
         OF example_resolves]
      getPhotoOverlayParams_visible
        [of example_resolver
          "\<lparr>front = example_design\<lparr>photoSize := \<lparr>size_width = lit 0, size_height = lit 80\<rparr>\<rparr>\<rparr>"
          "example_design\<lparr>photoSize := \<lparr>size_width = lit 0, size_height = lit 80\<rparr>\<rparr>"
          "lit 54" "lit 86", OF r]
      getPhotoOverlayParams_visible
        [of example_resolver "\<lparr>front = example_design\<lparr>showPhoto := Some False\<rparr>\<rparr>"
          "example_design\<lparr>showPhoto := Some False\<rparr>" "lit 54" "lit 86", OF r]
      pos z
    by (simp add: example_fields) blast
qed

text \<open>
  C3. The pixel fields of the result are the position and size read from the resolved
  design, unchanged, and the shape is the design's shape, whichever of the three it is.
\<close>

theorem getPhotoOverlayParams_pixels_shape:
  assumes "resolveTemplateDesign (front T) = Inr d"
  shows "\<exists>r. getPhotoOverlayParams resolveTemplateDesign T w h = Inr r
    \<and> leftPx r = pos_x (photoPosition d)
    \<and> topPx r = pos_y (photoPosition d)
    \<and> widthPx r = size_width (photoSize d)
    \<and> heightPx r = size_height (photoSize d)
    \<and> shape r = photoShape d"
  by (simp add: getPhotoOverlayParams_Inr [of resolveTemplateDesign T d, OF assms])

theorem getPhotoOverlayParams_pixels_shape_witness:
  "\<exists>r. getPhotoOverlayParams example_resolver example_template (lit 54) (lit 86) = Inr r
    \<and> leftPx r = lit 10 \<and> topPx r = lit 20 \<and> widthPx r = lit 50 \<and> heightPx r = lit 80
    \<and> shape r = circle"
  using getPhotoOverlayParams_pixels_shape
      [of example_resolver example_template example_design "lit 54" "lit 86", OF example_resolves]
  by (simp only: example_fields)

text \<open>
  C9. With pixel width and height both greater than zero, an absent \<open>showPhoto\<close> gives
  a visible photo, and the photo is hidden only when \<open>showPhoto\<close> is \<open>false\<close>.
\<close>

theorem getPhotoOverlayParams_showPhoto_absent:
  assumes "resolveTemplateDesign (front T) = Inr d"
    and "fgt (size_width (photoSize d)) (lit 0)"
    and "fgt (size_height (photoSize d)) (lit 0)"
  shows "\<exists>r. getPhotoOverlayParams resolveTemplateDesign T w h = Inr r
    \<and> (showPhoto d = None \<longrightarrow> visible r)
    \<and> (\<not> visible r \<longleftrightarrow> showPhoto d = Some False)"
  using assms(2,3)
  by (simp add: getPhotoOverlayParams_Inr [of resolveTemplateDesign T d, OF assms(1)])

theorem getPhotoOverlayParams_showPhoto_absent_witness:
  "\<exists>r. getPhotoOverlayParams example_resolver \<lparr>front = example_design\<lparr>showPhoto := None\<rparr>\<rparr>
         (lit 54) (lit 86) = Inr r
    \<and> visible r"
proof -
  have "example_resolver (front \<lparr>front = example_design\<lparr>showPhoto := None\<rparr>\<rparr>)
      = Inr (example_design\<lparr>showPhoto := None\<rparr>)"
    by (simp add: example_resolver_def)
  moreover have "fgt (size_width (photoSize (example_design\<lparr>showPhoto := None\<rparr>))) (lit 0)"
    "fgt (size_height (photoSize (example_design\<lparr>showPhoto := None\<rparr>))) (lit 0)"
    by (simp_all add: example_fields fgt_lit_zero)
  ultimately show ?thesis
    using getPhotoOverlayParams_showPhoto_absent
      [of example_resolver "\<lparr>front = example_design\<lparr>showPhoto := None\<rparr>\<rparr>"
        "example_design\<lparr>showPhoto := None\<rparr>" "lit 54" "lit 86"]
    by simp
qed

text \<open>
  C10. Two calls on the same template with different target dimensions agree on the
  pixel fields, the shape and the visibility: none of them depends on the targets.
\<close>

theorem getPhotoOverlayParams_targets_irrelevant:
  assumes "resolveTemplateDesign (front T) = Inr d"
  shows "\<exists>r1 r2. getPhotoOverlayParams resolveTemplateDesign T w1 h1 = Inr r1
    \<and> getPhotoOverlayParams resolveTemplateDesign T w2 h2 = Inr r2
    \<and> leftPx r1 = leftPx r2 \<and> topPx r1 = topPx r2
    \<and> widthPx r1 = widthPx r2 \<and> heightPx r1 = heightPx r2
    \<and> shape r1 = shape r2 \<and> visible r1 = visible r2"
  by (simp add: getPhotoOverlayParams_Inr [of resolveTemplateDesign T d, OF assms])

theorem getPhotoOverlayParams_targets_irrelevant_witness:
  "\<exists>r1 r2. getPhotoOverlayParams example_resolver example_template (lit 54) (lit 86) = Inr r1
    \<and> getPhotoOverlayParams example_resolver example_template (lit 210) (lit 297) = Inr r2
    \<and> leftPx r1 = leftPx r2 \<and> topPx r1 = topPx r2
    \<and> widthPx r1 = widthPx r2 \<and> heightPx r1 = heightPx r2
    \<and> shape r1 = shape r2 \<and> visible r1 = visible r2"
  using getPhotoOverlayParams_targets_irrelevant
      [of example_resolver example_template example_design "lit 54" "lit 86" "lit 210" "lit 297",
       OF example_resolves]
  by simp

section \<open>Evaluating the arithmetic\<close>

lemma of_mag_scaled:
  assumes m: "m \<le> 2 ^ 53" and t: "t \<le> 2044"
  shows "mag (of_mag s (m * 2 ^ t)) = m * 2 ^ t" "is_finite (of_mag s (m * 2 ^ t))"
proof -
  have "(2::nat) ^ t \<le> 2 ^ 2044"
    using t by (rule pow2_mono)
  then have "m * 2 ^ t \<le> 2 ^ 53 * 2 ^ 2044"
    using m by (intro mult_le_mono)
  also have "(2::nat) ^ 53 * 2 ^ 2044 < 2 ^ 2098"
    by simp
  finally have b: "m * 2 ^ t < 2 ^ 2098" .
  show "mag (of_mag s (m * 2 ^ t)) = m * 2 ^ t"
    using representable_normal [OF m] b by (rule mag_of_mag)
  show "is_finite (of_mag s (m * 2 ^ t))"
    unfolding is_finite_of_mag by (rule b)
qed

lemma valof_scaled:
  assumes "mag a = m * 2 ^ t" and "t \<le> 1074" and "\<not> sign a"
  shows "valof a = of_nat m / 2 ^ (1074 - t)"
proof -
  have "(2::rat) ^ 1074 = 2 ^ t * 2 ^ (1074 - t)"
    using assms(2) by (simp flip: power_add)
  then show ?thesis
    unfolding valof_def assms(1) using assms(3) by (simp del: power_numeral)
qed

lemma fdiv_scaled:
  assumes a: "is_finite a" "mag a = ma * 2 ^ ja"
    and b: "is_finite b" "mag b = mb * 2 ^ jb" "0 < mb"
    and lo: "2 ^ 52 * mb \<le> ma * 2 ^ i" and hi: "ma * 2 ^ i < 2 ^ 53 * mb"
    and t: "ja + 1074 = t + i + jb"
  shows "fdiv a b = of_mag (sign a \<noteq> sign b) (rne (ma * 2 ^ i) mb * 2 ^ t)"
proof -
  have nz: "\<not> is_zero b"
    unfolding mag_eq_0_iff [symmetric] b(2) using b(3) by simp
  have "mag a * 2 ^ 1074 = ma * 2 ^ (ja + 1074)"
    unfolding a(2) by (simp only: power_add mult.assoc)
  also have "\<dots> = ma * 2 ^ i * 2 ^ t * 2 ^ jb"
    unfolding t by (simp only: power_add ac_simps)
  finally have n: "mag a * 2 ^ 1074 = ma * 2 ^ i * 2 ^ t * 2 ^ jb" .
  have "round_mag (ma * 2 ^ i * 2 ^ t * 2 ^ jb) (mb * 2 ^ jb) = round_mag (ma * 2 ^ i * 2 ^ t) mb"
    by (rule round_mag_scale) simp
  also have "\<dots> = round_mag (ma * 2 ^ i) mb * 2 ^ t"
    using b(3) lo by (rule round_mag_shift)
  also have "round_mag (ma * 2 ^ i) mb = rne (ma * 2 ^ i) mb"
    using hi by (rule round_mag_small)
  finally show ?thesis
    unfolding fdiv_finite [OF a(1) b(1) nz] n b(2) by (simp only:)
qed

lemma fmul_scaled:
  assumes a: "is_finite a" "mag a = ma * 2 ^ ja"
    and b: "is_finite b" "mag b = mb * 2 ^ jb"
    and lo: "2 ^ (52 + k) \<le> ma * mb" and hi: "ma * mb < 2 ^ (53 + k)"
    and t: "ja + jb = t + 1074"
  shows "fmul a b = of_mag (sign a \<noteq> sign b) (rne (ma * mb) (2 ^ k) * 2 ^ (k + t))"
proof -
  have "mag a * mag b = ma * mb * 2 ^ (ja + jb)"
    unfolding a(2) b(2) by (simp only: power_add ac_simps)
  also have "\<dots> = ma * mb * 2 ^ t * 2 ^ 1074"
    unfolding t by (simp only: power_add ac_simps)
  finally have n: "mag a * mag b = ma * mb * 2 ^ t * 2 ^ 1074" .
  have "(2::nat) ^ 52 * 1 \<le> 2 ^ 52 * 2 ^ k"
    by (intro mult_le_mono) simp_all
  also have "\<dots> \<le> ma * mb"
    using lo by (simp only: power_add)
  finally have lo': "2 ^ 52 * 1 \<le> ma * mb" .
  have "round_mag (ma * mb * 2 ^ t * 2 ^ 1074) (1 * 2 ^ 1074) = round_mag (ma * mb * 2 ^ t) 1"
    by (rule round_mag_scale) simp
  also have "\<dots> = round_mag (ma * mb) 1 * 2 ^ t"
    using _ lo' by (rule round_mag_shift) simp
  also have "round_mag (ma * mb) 1 = rne (ma * mb) (1 * 2 ^ k) * 2 ^ k"
    using lo hi by (intro round_mag_at) simp_all
  finally have "round_mag (mag a * mag b) (2 ^ 1074) = rne (ma * mb) (2 ^ k) * 2 ^ (k + t)"
    unfolding n by (simp only: mult_1 power_add mult.assoc)
  then show ?thesis
    unfolding fmul_finite [OF a(1) b(1)] by (simp only:)
qed

lemma fdiv_lit:
  assumes n: "n < 2 ^ 53" and d: "d < 2 ^ 53" "0 < d"
    and lo: "2 ^ 52 * d \<le> n * 2 ^ i" and hi: "n * 2 ^ i < 2 ^ 53 * d" and i: "i \<le> 1074"
  shows "fdiv (lit n) (lit d) = of_mag False (rne (n * 2 ^ i) d * 2 ^ (1074 - i))"
proof -
  have "1074 + 1074 = (1074 - i) + i + 1074"
    using i by simp
  then have "fdiv (lit n) (lit d)
      = of_mag (sign (lit n) \<noteq> sign (lit d)) (rne (n * 2 ^ i) d * 2 ^ (1074 - i))"
    using lit_facts(2,1) [OF n] lit_facts(2,1) [OF d(1)] d(2) lo hi
    by (intro fdiv_scaled [where ja = 1074 and jb = 1074])
  then show ?thesis
    by (simp only: lit_facts(3) [OF n] lit_facts(3) [OF d(1)]) simp
qed

lemma fmul_lit:
  assumes a: "is_finite a" "mag a = ma * 2 ^ ja" "\<not> sign a" and w: "w < 2 ^ 53"
    and lo: "2 ^ (52 + k) \<le> ma * w" and hi: "ma * w < 2 ^ (53 + k)"
  shows "fmul a (lit w) = of_mag False (rne (ma * w) (2 ^ k) * 2 ^ (k + ja))"
proof -
  have "fmul a (lit w) = of_mag (sign a \<noteq> sign (lit w)) (rne (ma * w) (2 ^ k) * 2 ^ (k + ja))"
    using a(1,2) lit_facts(2,1) [OF w] lo hi
    by (intro fmul_scaled [where jb = 1074]) simp_all
  then show ?thesis
    using a(3) by (simp only: lit_facts(3) [OF w]) simp
qed

lemma example_quotients:
  "fdiv (lit 10) (lit 153) = of_mag False (4709646669145617 * 2 ^ 1018)"
  "fdiv (lit 20) (lit 244) = of_mag False (5906360167043273 * 2 ^ 1018)"
  "fdiv (lit 50) (lit 153) = of_mag False (5887058336432021 * 2 ^ 1020)"
  "fdiv (lit 80) (lit 244) = of_mag False (5906360167043273 * 2 ^ 1020)"
proof -
  have "rne (10 * 2 ^ 56) 153 = 4709646669145617" "rne (20 * 2 ^ 56) 244 = 5906360167043273"
    "rne (50 * 2 ^ 54) 153 = 5887058336432021" "rne (80 * 2 ^ 54) 244 = 5906360167043273"
    by (simp_all add: rne_def Let_def)
  then show "fdiv (lit 10) (lit 153) = of_mag False (4709646669145617 * 2 ^ 1018)"
    "fdiv (lit 20) (lit 244) = of_mag False (5906360167043273 * 2 ^ 1018)"
    "fdiv (lit 50) (lit 153) = of_mag False (5887058336432021 * 2 ^ 1020)"
    "fdiv (lit 80) (lit 244) = of_mag False (5906360167043273 * 2 ^ 1020)"
    using fdiv_lit [of 10 153 56] fdiv_lit [of 20 244 56] fdiv_lit [of 50 153 54]
      fdiv_lit [of 80 244 54]
    by simp_all
qed

lemma example_quotient_facts:
  "is_finite (of_mag False (4709646669145617 * 2 ^ 1018))"
  "mag (of_mag False (4709646669145617 * 2 ^ 1018)) = 4709646669145617 * 2 ^ 1018"
  "is_finite (of_mag False (5906360167043273 * 2 ^ 1018))"
  "mag (of_mag False (5906360167043273 * 2 ^ 1018)) = 5906360167043273 * 2 ^ 1018"
  "is_finite (of_mag False (5887058336432021 * 2 ^ 1020))"
  "mag (of_mag False (5887058336432021 * 2 ^ 1020)) = 5887058336432021 * 2 ^ 1020"
  "is_finite (of_mag False (5906360167043273 * 2 ^ 1020))"
  "mag (of_mag False (5906360167043273 * 2 ^ 1020)) = 5906360167043273 * 2 ^ 1020"
  by (rule of_mag_scaled; simp)+

lemma fmul_of_mag_lit:
  assumes "ma \<le> 2 ^ 53" and "ja \<le> 2044" and "w < 2 ^ 53"
    and "2 ^ (52 + k) \<le> ma * w" and "ma * w < 2 ^ (53 + k)" and "rne (ma * w) (2 ^ k) = r"
  shows "fmul (of_mag False (ma * 2 ^ ja)) (lit w) = of_mag False (r * 2 ^ (k + ja))"
proof -
  have "\<not> sign (of_mag False (ma * 2 ^ ja))"
    by (simp add: sign_of_mag)
  with of_mag_scaled [OF assms(1,2), of False]
  have "fmul (of_mag False (ma * 2 ^ ja)) (lit w)
      = of_mag False (rne (ma * w) (2 ^ k) * 2 ^ (k + ja))"
    using assms(3,4,5) by (intro fmul_lit)
  then show ?thesis
    by (simp only: assms(6))
qed

lemma example_millimetres:
  "fmul (fdiv (lit 10) (lit 153)) (lit 54) = of_mag False (7947528754183229 * 2 ^ 1023)"
  "fmul (fdiv (lit 20) (lit 244)) (lit 86) = of_mag False (7936671474464398 * 2 ^ 1024)"
  "fmul (fdiv (lit 50) (lit 153)) (lit 54) = of_mag False (4967205471364518 * 2 ^ 1026)"
  "fmul (fdiv (lit 80) (lit 244)) (lit 86) = of_mag False (7936671474464398 * 2 ^ 1026)"
  unfolding example_quotients
  using fmul_of_mag_lit [of 4709646669145617 1018 54 5 7947528754183229]
    fmul_of_mag_lit [of 5906360167043273 1018 86 6 7936671474464398]
    fmul_of_mag_lit [of 5887058336432021 1020 54 6 4967205471364518]
    fmul_of_mag_lit [of 5906360167043273 1020 86 6 7936671474464398]
  by (simp_all add: rne_def Let_def)

lemma example_values:
  "valof (of_mag False (7947528754183229 * 2 ^ 1023)) = 7947528754183229 / 2 ^ 51"
  "valof (of_mag False (7936671474464398 * 2 ^ 1024)) = 7936671474464398 / 2 ^ 50"
  "valof (of_mag False (4967205471364518 * 2 ^ 1026)) = 4967205471364518 / 2 ^ 48"
  "valof (of_mag False (7936671474464398 * 2 ^ 1026)) = 7936671474464398 / 2 ^ 48"
proof -
  have v: "valof (of_mag False (m * 2 ^ t)) = of_nat m / 2 ^ (1074 - t)"
    if "m \<le> 2 ^ 53" "t \<le> 1074" for m t
    using that by (intro valof_scaled of_mag_scaled) (simp_all add: sign_of_mag)
  show "valof (of_mag False (7947528754183229 * 2 ^ 1023)) = 7947528754183229 / 2 ^ 51"
    "valof (of_mag False (7936671474464398 * 2 ^ 1024)) = 7936671474464398 / 2 ^ 50"
    "valof (of_mag False (4967205471364518 * 2 ^ 1026)) = 4967205471364518 / 2 ^ 48"
    "valof (of_mag False (7936671474464398 * 2 ^ 1026)) = 7936671474464398 / 2 ^ 48"
    using v [of 7947528754183229 1023] v [of 7936671474464398 1024]
      v [of 4967205471364518 1026] v [of 7936671474464398 1026]
    by simp_all
qed

section \<open>The overlay calculator: the example and the doubling law\<close>

text \<open>
  C8. For a design with position (10, 20), size (50, 80), shape circle and
  \<open>showPhoto = true\<close>, on a card of 54 mm by 86 mm, the call returns the four
  millimetre fields \<open>10/153*54\<close>, \<open>20/244*86\<close>, \<open>50/153*54\<close> and \<open>80/244*86\<close> as the
  language computes them; they are finite, round to 3.53, 7.05, 17.65 and 28.20, and lie
  within \<open>10 ^ -14\<close> of the exact quotients. The shape is circle and the photo is
  visible.
\<close>

theorem getPhotoOverlayParams_example:
  assumes "resolveTemplateDesign (front T) = Inr d"
    and "pos_x (photoPosition d) = lit 10" and "pos_y (photoPosition d) = lit 20"
    and "size_width (photoSize d) = lit 50" and "size_height (photoSize d) = lit 80"
    and "photoShape d = circle" and "showPhoto d = Some True"
  shows "\<exists>r. getPhotoOverlayParams resolveTemplateDesign T (lit 54) (lit 86) = Inr r
    \<and> leftMM r = fmul (fdiv (lit 10) (lit 153)) (lit 54)
    \<and> topMM r = fmul (fdiv (lit 20) (lit 244)) (lit 86)
    \<and> widthMM r = fmul (fdiv (lit 50) (lit 153)) (lit 54)
    \<and> heightMM r = fmul (fdiv (lit 80) (lit 244)) (lit 86)
    \<and> is_finite (leftMM r) \<and> is_finite (topMM r)
    \<and> is_finite (widthMM r) \<and> is_finite (heightMM r)
    \<and> \<bar>valof (leftMM r) - 353 / 100\<bar> \<le> 1 / 200
    \<and> \<bar>valof (topMM r) - 705 / 100\<bar> \<le> 1 / 200
    \<and> \<bar>valof (widthMM r) - 1765 / 100\<bar> \<le> 1 / 200
    \<and> \<bar>valof (heightMM r) - 2820 / 100\<bar> \<le> 1 / 200
    \<and> \<bar>valof (leftMM r) - 10 / 153 * 54\<bar> \<le> 1 / 10 ^ 14
    \<and> \<bar>valof (topMM r) - 20 / 244 * 86\<bar> \<le> 1 / 10 ^ 14
    \<and> \<bar>valof (widthMM r) - 50 / 153 * 54\<bar> \<le> 1 / 10 ^ 14
    \<and> \<bar>valof (heightMM r) - 80 / 244 * 86\<bar> \<le> 1 / 10 ^ 14
    \<and> shape r = circle \<and> visible r"
proof -
  have fin: "is_finite (of_mag False (7947528754183229 * 2 ^ 1023))"
    "is_finite (of_mag False (7936671474464398 * 2 ^ 1024))"
    "is_finite (of_mag False (4967205471364518 * 2 ^ 1026))"
    "is_finite (of_mag False (7936671474464398 * 2 ^ 1026))"
    by (rule of_mag_scaled; simp)+
  have approx: "\<bar>7947528754183229 / 2 ^ 51 - 353 / 100\<bar> \<le> (1 / 200 :: rat)"
    "\<bar>7936671474464398 / 2 ^ 50 - 705 / 100\<bar> \<le> (1 / 200 :: rat)"
    "\<bar>4967205471364518 / 2 ^ 48 - 1765 / 100\<bar> \<le> (1 / 200 :: rat)"
    "\<bar>7936671474464398 / 2 ^ 48 - 2820 / 100\<bar> \<le> (1 / 200 :: rat)"
    "\<bar>7947528754183229 / 2 ^ 51 - 10 / 153 * 54\<bar> \<le> (1 / 10 ^ 14 :: rat)"
    "\<bar>7936671474464398 / 2 ^ 50 - 20 / 244 * 86\<bar> \<le> (1 / 10 ^ 14 :: rat)"
    "\<bar>4967205471364518 / 2 ^ 48 - 50 / 153 * 54\<bar> \<le> (1 / 10 ^ 14 :: rat)"
    "\<bar>7936671474464398 / 2 ^ 48 - 80 / 244 * 86\<bar> \<le> (1 / 10 ^ 14 :: rat)"
    by simp_all
  have pos: "fgt (lit 50) (lit 0)" "fgt (lit 80) (lit 0)"
    by (simp_all add: fgt_lit_zero)
  show ?thesis
    unfolding getPhotoOverlayParams_Inr [of resolveTemplateDesign T d, OF assms(1)]
      assms(2-7) CARD_WIDTH_PX_def CARD_HEIGHT_PX_def
    using fin approx pos
    by (simp add: example_millimetres example_values del: power_numeral)
qed

theorem getPhotoOverlayParams_example_witness:
  "\<exists>r. getPhotoOverlayParams example_resolver example_template (lit 54) (lit 86) = Inr r
    \<and> \<bar>valof (leftMM r) - 353 / 100\<bar> \<le> 1 / 200
    \<and> \<bar>valof (topMM r) - 705 / 100\<bar> \<le> 1 / 200
    \<and> \<bar>valof (widthMM r) - 1765 / 100\<bar> \<le> 1 / 200
    \<and> \<bar>valof (heightMM r) - 2820 / 100\<bar> \<le> 1 / 200
    \<and> shape r = circle \<and> visible r"
  using getPhotoOverlayParams_example
      [of example_resolver example_template example_design, OF example_resolves example_fields]
  by blast

lemma fdiv_zero_lit:
  assumes "d < 2 ^ 53" and "0 < d"
  shows "fdiv (lit 0) (lit d) = Zero False"
proof -
  have z: "(0::nat) < 2 ^ 53"
    by simp
  have nz: "\<not> is_zero (lit d)"
    using assms by (simp add: lit_facts)
  have "fdiv (lit 0) (lit d) = of_mag False (round_mag (0 * 2 ^ 1074) (mag (lit d)))"
    unfolding fdiv_finite [OF lit_facts(2) [OF z] lit_facts(2) [OF assms(1)] nz]
    by (simp only: lit_facts(1,3) [OF z] lit_facts(3) [OF assms(1)]) simp
  then show ?thesis
    by (simp add: round_mag_zero of_mag_subnormal Zero_def)
qed

lemma Zero_facts:
  "is_finite (Zero s)" "mag (Zero s) = 0" "sign (Zero s) = s" "is_zero (Zero s)"
  "\<not> is_nan (Zero s)" "\<not> is_infinite (Zero s)"
  by (simp_all add: Zero_def is_finite_def mag_def is_zero_def is_nan_def is_infinite_def)

lemma fmul_Zero:
  assumes "is_finite b"
  shows "fmul (Zero s) b = Zero (s \<noteq> sign b)"
  unfolding fmul_finite [OF Zero_facts(1) assms] Zero_facts
  by (simp add: round_mag_zero of_mag_subnormal Zero_def)

lemma fmul_two_Zero: "fmul (lit 2) (Zero s) = Zero s"
  unfolding fmul_two [OF Zero_facts(5)] Zero_facts
  by (simp add: of_mag_subnormal Zero_def)

lemma MAX_VALUE_facts:
  "is_finite MAX_VALUE" "\<not> sign MAX_VALUE" "\<not> is_nan MAX_VALUE"
  "mag MAX_VALUE = (2 ^ 53 - 1) * 2 ^ 2045"
  by (simp_all add: MAX_VALUE_def is_finite_def is_nan_def mag_def)

lemma twice_MAX_VALUE: "fmul (lit 2) MAX_VALUE = Infinity False"
proof -
  have "(2::nat) ^ 2098 \<le> 2 * ((2 ^ 53 - 1) * 2 ^ 2045)"
    by simp
  then show ?thesis
    unfolding fmul_two [OF MAX_VALUE_facts(3)] MAX_VALUE_facts(4)
    using MAX_VALUE_facts(2) by (simp only: of_mag_infinite)
qed

lemma fmul_Zero_Infinity: "fmul (Zero s) (Infinity t) = NaN"
  by (simp add: fmul_def Zero_def Infinity_def is_nan_def is_infinite_def is_zero_def)

lemma NaN_not_Zero: "NaN \<noteq> Zero s"
  by (simp add: NaN_def Zero_def)

lemma left_edge_fields:
  "pos_x (photoPosition left_edge_design) = lit 0"
  by (simp add: left_edge_design_def)

lemma left_edge_resolves:
  "example_resolver (front \<lparr>front = left_edge_design\<rparr>) = Inr left_edge_design"
  by (simp add: example_resolver_def)

text \<open>
  C4, as stated, fails where doubling the target overflows: for a photo at the left edge
  (\<open>x = 0\<close>) and the target width \<open>Number.MAX_VALUE\<close>, the doubled width is
  \<open>Infinity\<close> and \<open>leftMM\<close> is \<open>0 * Infinity = NaN\<close>, while \<open>leftMM\<close> for the
  width itself is 0 and its double is 0.
\<close>

theorem getPhotoOverlayParams_doubling_counterexample:
  "map_sum id leftMM (getPhotoOverlayParams example_resolver \<lparr>front = left_edge_design\<rparr>
      (fmul (lit 2) MAX_VALUE) (fmul (lit 2) (lit 86))) = Inr NaN
   \<and> map_sum id leftMM (getPhotoOverlayParams example_resolver \<lparr>front = left_edge_design\<rparr>
      MAX_VALUE (lit 86)) = Inr (Zero False)
   \<and> fmul (lit 2) (Zero False) = Zero False
   \<and> NaN \<noteq> Zero False"
proof -
  have q: "fdiv (lit 0) CARD_WIDTH_PX = Zero False"
    unfolding CARD_WIDTH_PX_def by (rule fdiv_zero_lit) simp_all
  have "fmul (Zero False) MAX_VALUE = Zero False"
    using fmul_Zero [OF MAX_VALUE_facts(1), of False] MAX_VALUE_facts(2) by simp
  then show ?thesis
    unfolding getPhotoOverlayParams_Inr
      [of example_resolver "\<lparr>front = left_edge_design\<rparr>" left_edge_design,
        OF left_edge_resolves]
    by (simp add: left_edge_fields q twice_MAX_VALUE fmul_Zero_Infinity fmul_two_Zero
        NaN_not_Zero)
qed

lemma MIN_VALUE_facts:
  "is_finite MIN_VALUE" "\<not> sign MIN_VALUE" "\<not> is_nan MIN_VALUE" "mag MIN_VALUE = 1"
  by (simp_all add: MIN_VALUE_def is_finite_def is_nan_def mag_def)

lemma of_mag_small_facts:
  assumes "m < 2 ^ 52"
  shows "is_finite (of_mag s m)" "mag (of_mag s m) = m"
proof -
  have "m < 2 ^ 2098"
    using assms pow2_mono [of 52 2098] by simp
  then show "is_finite (of_mag s m)"
    by (simp only: is_finite_of_mag)
  show "mag (of_mag s m) = m"
    using assms by (simp add: of_mag_subnormal mag_def unat_fraction_of_nat)
qed

lemma one_and_a_half:
  "fdiv (fdiv (lit 459) (lit 2)) (lit 153) = of_mag False (6755399441055744 * 2 ^ 1022)"
proof -
  have h: "fdiv (lit 459) (lit 2) = of_mag False (8074813394386944 * 2 ^ 1029)"
    using fdiv_lit [of 459 2 45] by (simp add: rne_def Let_def)
  have d: "(153::nat) < 2 ^ 53"
    by simp
  have "fdiv (of_mag False (8074813394386944 * 2 ^ 1029)) (lit 153)
      = of_mag (sign (of_mag False (8074813394386944 * 2 ^ 1029)) \<noteq> sign (lit 153))
          (rne (8074813394386944 * 2 ^ 7) 153 * 2 ^ 1022)"
  proof (rule fdiv_scaled [where ja = 1029 and jb = 1074])
    show "is_finite (of_mag False (8074813394386944 * 2 ^ 1029))"
      "mag (of_mag False (8074813394386944 * 2 ^ 1029)) = 8074813394386944 * 2 ^ 1029"
      by (rule of_mag_scaled; simp)+
    show "is_finite (lit 153)" "mag (lit 153) = 153 * 2 ^ 1074"
      by (rule lit_facts; simp)+
  qed simp_all
  moreover have "rne (8074813394386944 * 2 ^ 7) 153 = 6755399441055744"
    by (simp add: rne_def Let_def)
  moreover have "sign (lit 153) = False"
    by (rule lit_facts; simp)
  ultimately show ?thesis
    unfolding h by (simp only: sign_of_mag) simp
qed

text \<open>
  Twice a product is not the product with twice the factor where the product underflows:
  for the pixel value 229.5 and the target \<open>Number.MIN_VALUE\<close>, the quotient
  \<open>229.5 / 153\<close> is 1.5; \<open>1.5 * MIN_VALUE\<close> is a tie and rounds to 2 units, so its
  double is 4 units, but \<open>1.5 * (2 * MIN_VALUE)\<close> is 3 units.
\<close>

lemma doubling_fails_on_underflow:
  "fmul (fdiv (fdiv (lit 459) (lit 2)) (lit 153)) (fmul (lit 2) MIN_VALUE) = Number False 0 3"
  "fmul (lit 2) (fmul (fdiv (fdiv (lit 459) (lit 2)) (lit 153)) MIN_VALUE) = Number False 0 4"
proof -
  let ?a = "of_mag False (6755399441055744 * 2 ^ 1022)"
  have a: "is_finite ?a" "mag ?a = 6755399441055744 * 2 ^ 1022" "sign ?a = False"
    by (rule of_mag_scaled sign_of_mag; simp)+
  have two: "fmul (lit 2) MIN_VALUE = of_mag False 2"
    unfolding fmul_two [OF MIN_VALUE_facts(3)] using MIN_VALUE_facts by simp
  have s: "is_finite (of_mag False 2)" "mag (of_mag False 2) = 2" "sign (of_mag False 2) = False"
    "\<not> is_nan (of_mag False 2)"
    by (simp_all add: of_mag_small_facts sign_of_mag not_nan_of_mag)
  have "6755399441055744 * 2 ^ 1022 * 2 = (3::nat) * 2 ^ 1074"
    by simp
  moreover have "round_mag (3 * 2 ^ 1074) (1 * 2 ^ 1074) = round_mag 3 1"
    by (rule round_mag_scale) simp
  moreover have "round_mag 3 1 = 3"
    by (simp add: round_mag_small rne_def)
  ultimately have "fmul ?a (of_mag False 2) = of_mag False 3"
    unfolding fmul_finite [OF a(1) s(1)] a s by simp
  then show "fmul (fdiv (fdiv (lit 459) (lit 2)) (lit 153)) (fmul (lit 2) MIN_VALUE)
      = Number False 0 3"
    unfolding one_and_a_half two by (simp add: of_mag_subnormal)
  have "6755399441055744 * 2 ^ 1022 * 1 = (3::nat) * 2 ^ 1073"
    by simp
  moreover have "round_mag (3 * 2 ^ 1073) (2 * 2 ^ 1073) = round_mag 3 2"
    by (rule round_mag_scale) simp
  moreover have "round_mag 3 2 = 2"
    by (simp add: round_mag_small rne_def)
  moreover have "(2::nat) ^ 1074 = 2 * 2 ^ 1073"
    by simp
  ultimately have "fmul ?a MIN_VALUE = of_mag False 2"
    unfolding fmul_finite [OF a(1) MIN_VALUE_facts(1)] a MIN_VALUE_facts(4)
    using MIN_VALUE_facts(2) by simp
  moreover have "fmul (lit 2) (of_mag False 2) = of_mag False 4"
    using fmul_two [OF s(4)] s by simp
  ultimately have "fmul (lit 2) (fmul ?a MIN_VALUE) = of_mag False 4"
    by (simp only:)
  then show "fmul (lit 2) (fmul (fdiv (fdiv (lit 459) (lit 2)) (lit 153)) MIN_VALUE)
      = Number False 0 4"
    unfolding one_and_a_half by (simp add: of_mag_subnormal)
qed

lemma fmul_double_normal:
  assumes "is_finite (fmul (lit 2) w)" and "product_normal a w"
  shows "fmul a (fmul (lit 2) w) = fmul (lit 2) (fmul a w)"
  using assms unfolding product_normal_def by (intro fmul_double_target) simp_all

text \<open>
  C4, amended. Let the doubled targets \<open>2 * w\<close> and \<open>2 * h\<close> be finite and let, for
  each of the four fields, the quotient of the pixel value by the reference dimension be
  finite and its exact product with the target be zero or at least \<open>2 ^ -1022\<close> in
  magnitude. Then the call with the doubled targets returns millimetre fields that are
  exactly twice those of the call with \<open>w\<close> and \<open>h\<close>, and the same pixel fields.
\<close>

theorem getPhotoOverlayParams_doubling:
  assumes "resolveTemplateDesign (front T) = Inr d"
    and "is_finite (fmul (lit 2) w)" and "is_finite (fmul (lit 2) h)"
    and "product_normal (fdiv (pos_x (photoPosition d)) (lit 153)) w"
    and "product_normal (fdiv (pos_y (photoPosition d)) (lit 244)) h"
    and "product_normal (fdiv (size_width (photoSize d)) (lit 153)) w"
    and "product_normal (fdiv (size_height (photoSize d)) (lit 244)) h"
  shows "\<exists>r1 r2. getPhotoOverlayParams resolveTemplateDesign T w h = Inr r1
    \<and> getPhotoOverlayParams resolveTemplateDesign T (fmul (lit 2) w) (fmul (lit 2) h) = Inr r2
    \<and> leftMM r2 = fmul (lit 2) (leftMM r1)
    \<and> topMM r2 = fmul (lit 2) (topMM r1)
    \<and> widthMM r2 = fmul (lit 2) (widthMM r1)
    \<and> heightMM r2 = fmul (lit 2) (heightMM r1)
    \<and> leftPx r2 = leftPx r1 \<and> topPx r2 = topPx r1
    \<and> widthPx r2 = widthPx r1 \<and> heightPx r2 = heightPx r1"
  unfolding getPhotoOverlayParams_Inr [of resolveTemplateDesign T d, OF assms(1)]
    CARD_WIDTH_PX_def CARD_HEIGHT_PX_def
  using fmul_double_normal [OF assms(2) assms(4)] fmul_double_normal [OF assms(3) assms(5)]
    fmul_double_normal [OF assms(2) assms(6)] fmul_double_normal [OF assms(3) assms(7)]
  by simp

lemma is_finite_twice_lit:
  assumes "n < 2 ^ 53"
  shows "is_finite (fmul (lit 2) (lit n))"
proof -
  have "2 * (n * 2 ^ 1074) < 2 * (2 ^ 53 * 2 ^ 1074)"
    using assms by simp
  also have "\<dots> < (2::nat) ^ 2098"
    by simp
  finally show ?thesis
    unfolding fmul_two [OF lit_facts(4) [OF assms]] is_finite_of_mag lit_facts(1) [OF assms] .
qed

lemma product_normal_of_mag_lit:
  assumes "2 ^ 52 \<le> m" and "m \<le> 2 ^ 53" and "t \<le> 2044"
    and "0 < n" and "n < 2 ^ 53"
  shows "product_normal (of_mag False (m * 2 ^ t)) (lit n)"
proof -
  have "(2::nat) ^ 1126 = 2 ^ 52 * 2 ^ 0 * (1 * 2 ^ 1074)"
    by simp
  also have "\<dots> \<le> m * 2 ^ t * (n * 2 ^ 1074)"
    using assms(1,4) by (intro mult_le_mono pow2_mono) simp_all
  finally have "2 ^ 1126 \<le> mag (of_mag False (m * 2 ^ t)) * mag (lit n)"
    unfolding of_mag_scaled(1) [OF assms(2,3)] lit_facts(1) [OF assms(5)] .
  then show ?thesis
    unfolding product_normal_def
    using of_mag_scaled(2) [OF assms(2,3)] lit_facts(2) [OF assms(5)] by simp
qed

theorem getPhotoOverlayParams_doubling_witness:
  "\<exists>r1 r2. getPhotoOverlayParams example_resolver example_template (lit 54) (lit 86) = Inr r1
    \<and> getPhotoOverlayParams example_resolver example_template
         (fmul (lit 2) (lit 54)) (fmul (lit 2) (lit 86)) = Inr r2
    \<and> leftMM r2 = fmul (lit 2) (leftMM r1)
    \<and> topMM r2 = fmul (lit 2) (topMM r1)
    \<and> widthMM r2 = fmul (lit 2) (widthMM r1)
    \<and> heightMM r2 = fmul (lit 2) (heightMM r1)
    \<and> leftPx r2 = leftPx r1 \<and> topPx r2 = topPx r1
    \<and> widthPx r2 = widthPx r1 \<and> heightPx r2 = heightPx r1"
proof -
  have fin: "is_finite (fmul (lit 2) (lit 54))" "is_finite (fmul (lit 2) (lit 86))"
    by (rule is_finite_twice_lit; simp)+
  have pn: "product_normal (fdiv (pos_x (photoPosition example_design)) (lit 153)) (lit 54)"
    "product_normal (fdiv (pos_y (photoPosition example_design)) (lit 244)) (lit 86)"
    "product_normal (fdiv (size_width (photoSize example_design)) (lit 153)) (lit 54)"
    "product_normal (fdiv (size_height (photoSize example_design)) (lit 244)) (lit 86)"
    unfolding example_fields example_quotients
    by (rule product_normal_of_mag_lit; simp)+
  show ?thesis
    using getPhotoOverlayParams_doubling
        [of example_resolver example_template example_design "lit 54" "lit 86",
         OF example_resolves fin pn]
    by blast
qed

section \<open>The photo source verifier: claims\<close>

lemma js_includes_Nil: "js_includes s []"
  by (induction s) (simp_all add: startsWith_def)

lemma js_includes_prefix: "js_includes (s @ q) s"
  by (cases s) (simp_all add: js_includes_Nil startsWith_def)

lemma js_includes_append: "js_includes (p @ s @ q) s"
proof (induction p)
  case Nil
  show ?case by (simp add: js_includes_prefix)
next
  case (Cons c p)
  then show ?case by simp
qed

lemma ascii_append: "ascii (s @ t) = ascii s @ ascii t"
  by (simp add: ascii_def)

lemma startsWith_shorter: "startsWith s (p @ q) \<Longrightarrow> startsWith s p"
  unfolding startsWith_def
  by (metis append_eq_conv_conj append_take_drop_id length_append take_add take_all_iff
      append.assoc append_take_drop_id)

lemma png_refines_data_url:
  "startsWith s (ascii ''data:image/png'') \<Longrightarrow> startsWith s (ascii ''data:image/'')"
  using startsWith_shorter [of s "ascii ''data:image/''" "ascii ''png''"]
  by (simp add: ascii_def)

lemma length_div_1024_exact:
  assumes "n < 2 ^ 53"
  shows "valof (fdiv (lit n) (lit 1024)) = of_nat n / 1024"
proof -
  have d: "(1024::nat) < 2 ^ 53"
    by simp
  have nz: "\<not> is_zero (lit 1024)"
    by (simp add: lit_facts)
  have "n * 2 ^ 1074 = n * 2 ^ 1064 * 2 ^ 10"
    by (simp only: mult.assoc flip: power_add) simp
  then have n: "n * 2 ^ 1074 = n * 2 ^ 1064 * 1024"
    by simp
  have "round_mag (n * 2 ^ 1074 * 2 ^ 1074) (1024 * 2 ^ 1074) = round_mag (n * 2 ^ 1074) 1024"
    by (rule round_mag_scale) simp
  also have "\<dots> = n * 2 ^ 1064"
    unfolding n using assms by (intro round_mag_exact representable_normal) simp_all
  finally have q: "fdiv (lit n) (lit 1024) = of_mag False (n * 2 ^ 1064)"
    unfolding fdiv_finite [OF lit_facts(2) [OF assms] lit_facts(2) [OF d] nz]
    by (simp only: lit_facts(1,3) [OF assms] lit_facts(1,3) [OF d]) simp
  have "n \<le> 2 ^ 53"
    using assms by simp
  then have "mag (of_mag False (n * 2 ^ 1064)) = n * 2 ^ 1064"
    by (rule of_mag_scaled) simp
  then have "valof (of_mag False (n * 2 ^ 1064)) = of_nat n / 2 ^ (1074 - 1064)"
    by (rule valof_scaled) (simp_all add: sign_of_mag)
  then show ?thesis
    unfolding q by simp
qed

lemma Math_round_length: "Math_round (of_nat n / 1024) = int ((n + 512) div 1024)"
proof -
  have "(of_nat n / 1024 + 1 / 2 :: rat) = of_int (int (n + 512)) / of_int 1024"
    by (simp add: field_simps)
  then have "Math_round (of_nat n / 1024) = int (n + 512) div 1024"
    unfolding Math_round_def by (simp only: floor_divide_of_int_eq)
  then show ?thesis
    by (simp add: zdiv_int)
qed

lemma Math_round_nearest: "\<bar>of_int (Math_round v) - v\<bar> \<le> 1 / 2"
  unfolding Math_round_def by linarith

lemma verifyPhotoSource_present:
  assumes "payload \<noteq> []"
  shows "verifyPhotoSource employeeName (Some payload) templateName =
     Inr [(console_log, ascii ''[PHOTO-VERIFY] '' @ employeeName @ ascii '':''),
          (console_log, ascii ''  '' @ TEE @ ascii '' Template: '' @ templateName),
          (console_log, ascii ''  '' @ TEE @ ascii '' Is data URL: ''
             @ string_of_bool (startsWith payload (ascii ''data:image/''))),
          (console_log, ascii ''  '' @ TEE @ ascii '' Format: ''
             @ (if startsWith payload (ascii ''data:image/png'')
                then ascii ''PNG (supports transparency)'' else ascii ''JPEG/other'')),
          (console_log, ascii ''  '' @ TEE @ ascii '' Size: ''
             @ string_of_nat (nat (Math_round (valof (fdiv (lit (length payload)) (lit 1024)))))
             @ ascii '' KB''),
          (console_log, ascii ''  '' @ ELBOW @ ascii '' Source: ''
             @ (if startsWith payload (ascii ''data:image/'')
                then ascii ''PROCESSED (bg-removed + cropped)''
                else WARNING_SIGN @ ascii '' RAW URL '' @ EM_DASH @ ascii '' possible bug''))]"
  using assms
  by (simp add: verifyPhotoSource_def call_startsWith_def get_length_def)

text \<open>
  C5. With an absent payload (\<open>undefined\<close> or the empty string) the call writes one
  line, a warning, and nothing else; the line contains the subject's name, the text
  \<open>NO PHOTO\<close> and the note on the blank photo area.
\<close>

theorem verifyPhotoSource_absent:
  assumes "photoBase64 = None \<or> photoBase64 = Some []"
  shows "\<exists>line. verifyPhotoSource employeeName photoBase64 templateName
             = Inr [(console_warn, line)]
    \<and> js_includes line employeeName
    \<and> js_includes line (ascii ''NO PHOTO'')
    \<and> js_includes line (ascii ''blank photo area'')"
proof -
  let ?line = "ascii ''[PHOTO-VERIFY] '' @ employeeName @ ascii '': NO PHOTO '' @ EM_DASH
               @ ascii '' export will have blank photo area''"
  have out: "verifyPhotoSource employeeName photoBase64 templateName = Inr [(console_warn, ?line)]"
    using assms by (auto simp: verifyPhotoSource_def)
  have name: "js_includes ?line employeeName"
    by (rule js_includes_append)
  have "js_includes ((ascii ''[PHOTO-VERIFY] '' @ employeeName @ ascii '': '') @ ascii ''NO PHOTO''
          @ (ascii '' '' @ EM_DASH @ ascii '' export will have blank photo area'')) (ascii ''NO PHOTO'')"
    by (rule js_includes_append)
  then have no_photo: "js_includes ?line (ascii ''NO PHOTO'')"
    by (simp add: ascii_def)
  have "js_includes ((ascii ''[PHOTO-VERIFY] '' @ employeeName @ ascii '': NO PHOTO '' @ EM_DASH
          @ ascii '' export will have '') @ ascii ''blank photo area'' @ []) (ascii ''blank photo area'')"
    by (rule js_includes_append)
  then have blank: "js_includes ?line (ascii ''blank photo area'')"
    by (simp add: ascii_def)
  from out name no_photo blank show ?thesis
    by blast
qed

theorem verifyPhotoSource_absent_witness:
  "\<exists>line. verifyPhotoSource (ascii ''Alice'') None (ascii ''Classic'') = Inr [(console_warn, line)]
    \<and> js_includes line (ascii ''Alice'')
    \<and> js_includes line (ascii ''NO PHOTO'')"
  using verifyPhotoSource_absent [of None "ascii ''Alice''" "ascii ''Classic''"]
  by auto

text \<open>
  C6. For a non-empty payload (of a length below \<open>2 ^ 53\<close>, as every string of the
  language has) the call writes the six-line block. The payload is reported as a data
  URL exactly when it starts with \<open>data:image/\<close>, as PNG exactly when it starts with
  \<open>data:image/png\<close> (which implies the former), as \<open>PROCESSED\<close> exactly when it is a
  data URL and with the raw-URL warning otherwise. The division of the length by 1024 is
  exact, and the size printed is that quotient rounded to the nearest integer.
\<close>

theorem verifyPhotoSource_classification:
  assumes "payload \<noteq> []" and "length payload < 2 ^ 53"
  shows "verifyPhotoSource employeeName (Some payload) templateName =
     Inr [(console_log, ascii ''[PHOTO-VERIFY] '' @ employeeName @ ascii '':''),
          (console_log, ascii ''  '' @ TEE @ ascii '' Template: '' @ templateName),
          (console_log, ascii ''  '' @ TEE @ ascii '' Is data URL: ''
             @ (if startsWith payload (ascii ''data:image/'')
                then ascii ''true'' else ascii ''false'')),
          (console_log, ascii ''  '' @ TEE @ ascii '' Format: ''
             @ (if startsWith payload (ascii ''data:image/png'')
                then ascii ''PNG (supports transparency)'' else ascii ''JPEG/other'')),
          (console_log, ascii ''  '' @ TEE @ ascii '' Size: ''
             @ string_of_nat ((length payload + 512) div 1024) @ ascii '' KB''),
          (console_log, ascii ''  '' @ ELBOW @ ascii '' Source: ''
             @ (if startsWith payload (ascii ''data:image/'')
                then ascii ''PROCESSED (bg-removed + cropped)''
                else WARNING_SIGN @ ascii '' RAW URL '' @ EM_DASH @ ascii '' possible bug''))]
    \<and> (startsWith payload (ascii ''data:image/png'') \<longrightarrow> startsWith payload (ascii ''data:image/''))
    \<and> valof (fdiv (lit (length payload)) (lit 1024)) = of_nat (length payload) / 1024
    \<and> \<bar>of_nat ((length payload + 512) div 1024) - of_nat (length payload) / 1024\<bar>
        \<le> (1 / 2 :: rat)"
proof (intro conjI)
  show "valof (fdiv (lit (length payload)) (lit 1024)) = of_nat (length payload) / 1024"
    using assms(2) by (rule length_div_1024_exact)
  show "\<bar>of_nat ((length payload + 512) div 1024) - of_nat (length payload) / 1024\<bar>
        \<le> (1 / 2 :: rat)"
    using Math_round_nearest [of "of_nat (length payload) / 1024"]
    unfolding Math_round_length by simp
  show "startsWith payload (ascii ''data:image/png'') \<longrightarrow> startsWith payload (ascii ''data:image/'')"
    using png_refines_data_url [of payload] by blast
qed (simp add: verifyPhotoSource_present [OF assms(1)] string_of_bool_def
      length_div_1024_exact [OF assms(2)] Math_round_length)

lemma string_of_nat_digit: "n < 10 \<Longrightarrow> string_of_nat n = [of_nat (48 + n)]"
  by (simp add: string_of_nat.simps)

theorem verifyPhotoSource_classification_witness:
  "verifyPhotoSource (ascii ''Alice'') (Some (ascii ''data:image/png;base64,AAAA'')) (ascii ''Classic'') =
     Inr [(console_log, ascii ''[PHOTO-VERIFY] Alice:''),
          (console_log, ascii ''  '' @ TEE @ ascii '' Template: Classic''),
          (console_log, ascii ''  '' @ TEE @ ascii '' Is data URL: true''),
          (console_log, ascii ''  '' @ TEE @ ascii '' Format: PNG (supports transparency)''),
          (console_log, ascii ''  '' @ TEE @ ascii '' Size: 0 KB''),
          (console_log, ascii ''  '' @ ELBOW @ ascii '' Source: PROCESSED (bg-removed + cropped)'')]
   \<and> verifyPhotoSource (ascii ''Alice'') (Some (ascii ''https://example.com/photo.jpg'')) (ascii ''Classic'') =
     Inr [(console_log, ascii ''[PHOTO-VERIFY] Alice:''),
          (console_log, ascii ''  '' @ TEE @ ascii '' Template: Classic''),
          (console_log, ascii ''  '' @ TEE @ ascii '' Is data URL: false''),
          (console_log, ascii ''  '' @ TEE @ ascii '' Format: JPEG/other''),
          (console_log, ascii ''  '' @ TEE @ ascii '' Size: 0 KB''),
          (console_log, ascii ''  '' @ ELBOW @ ascii '' Source: '' @ WARNING_SIGN
             @ ascii '' RAW URL '' @ EM_DASH @ ascii '' possible bug'')]"
proof -
  have ne: "ascii ''data:image/png;base64,AAAA'' \<noteq> []" "ascii ''https://example.com/photo.jpg'' \<noteq> []"
    by (simp_all add: ascii_def)
  have png: "startsWith (ascii ''data:image/png;base64,AAAA'') (ascii ''data:image/png'')"
    "startsWith (ascii ''data:image/png;base64,AAAA'') (ascii ''data:image/'')"
    by (simp_all add: ascii_def startsWith_def)
  have url: "\<not> startsWith (ascii ''https://example.com/photo.jpg'') (ascii ''data:image/png'')"
    "\<not> startsWith (ascii ''https://example.com/photo.jpg'') (ascii ''data:image/'')"
    by (simp_all add: ascii_def startsWith_def)
  have len: "length (ascii ''data:image/png;base64,AAAA'') = 26"
    "length (ascii ''https://example.com/photo.jpg'') = 29"
    by (simp_all add: ascii_def)
  have zero: "string_of_nat 0 = ascii ''0''"
    by (simp add: string_of_nat_digit ascii_def)
  show ?thesis
    using verifyPhotoSource_classification [OF ne(1), of "ascii ''Alice''" "ascii ''Classic''"]
      verifyPhotoSource_classification [OF ne(2), of "ascii ''Alice''" "ascii ''Classic''"]
    by (simp add: png url len zero) (simp add: ascii_def)
qed

lemma replicate_6: "replicate 6 x = [x, x, x, x, x, x]"
  by (simp add: numeral_eq_Suc)

text \<open>
  C7. For every subject name, payload (a string or \<open>undefined\<close>) and template name
  the call returns, without a throw, having written at least one line; a non-empty
  payload that does not start with \<open>data:image/\<close> ends in the raw-URL line.
\<close>

theorem verifyPhotoSource_total:
  "\<exists>out. verifyPhotoSource employeeName photoBase64 templateName = Inr out
    \<and> out \<noteq> []
    \<and> (photoBase64 = None \<or> photoBase64 = Some [] \<longrightarrow> map fst out = [console_warn])
    \<and> (\<forall>payload. photoBase64 = Some payload \<and> payload \<noteq> [] \<longrightarrow>
          map fst out = replicate 6 console_log
          \<and> (\<not> startsWith payload (ascii ''data:image/'') \<longrightarrow>
               last out = (console_log, ascii ''  '' @ ELBOW @ ascii '' Source: '' @ WARNING_SIGN
                             @ ascii '' RAW URL '' @ EM_DASH @ ascii '' possible bug'')))"
proof (cases "photoBase64 = None \<or> photoBase64 = Some []")
  case True
  then show ?thesis
    by (auto simp: verifyPhotoSource_def)
next
  case False
  then obtain payload where p: "photoBase64 = Some payload" "payload \<noteq> []"
    by auto
  show ?thesis
    unfolding p(1) verifyPhotoSource_present [OF p(2)] using p(2)
    by (simp add: replicate_6)
qed

theorem verifyPhotoSource_total_witness:
  "(\<exists>out. verifyPhotoSource (ascii ''Bob'') (Some (ascii ''%%not an image%%'')) (ascii ''Classic'')
            = Inr out
      \<and> map fst out = replicate 6 console_log
      \<and> last out = (console_log, ascii ''  '' @ ELBOW @ ascii '' Source: '' @ WARNING_SIGN
                               @ ascii '' RAW URL '' @ EM_DASH @ ascii '' possible bug''))
   \<and> (\<exists>out. verifyPhotoSource (ascii ''Bob'') None (ascii ''Classic'') = Inr out
      \<and> map fst out = [console_warn])"
proof -
  have "ascii ''%%not an image%%'' \<noteq> []"
    "\<not> startsWith (ascii ''%%not an image%%'') (ascii ''data:image/'')"
    by (simp_all add: ascii_def startsWith_def)
  then have "\<exists>out. verifyPhotoSource (ascii ''Bob'') (Some (ascii ''%%not an image%%'')) (ascii ''Classic'')
            = Inr out
      \<and> map fst out = replicate 6 console_log
      \<and> last out = (console_log, ascii ''  '' @ ELBOW @ ascii '' Source: '' @ WARNING_SIGN
                               @ ascii '' RAW URL '' @ EM_DASH @ ascii '' possible bug'')"
    using verifyPhotoSource_total [of "ascii ''Bob''" "Some (ascii ''%%not an image%%'')" "ascii ''Classic''"]
    by blast
  moreover have "\<exists>out. verifyPhotoSource (ascii ''Bob'') None (ascii ''Classic'') = Inr out
      \<and> map fst out = [console_warn]"
    using verifyPhotoSource_total [of "ascii ''Bob''" None "ascii ''Classic''"]
    by auto
  ultimately show ?thesis
    by (rule conjI)
qed

end
